theory Spec2Isabelle
  imports
    Main
    "HOL-Library.Char_ord"
    "HOL-Library.List_Lexorder"
    "HOL-Library.Sublist"
begin

section \<open>Strings\<close>

text \<open>
  Python strings are modelled as \<open>string\<close> (lists of bytes, UTF-8). The lexicographic
  order of \<open>HOL-Library.List_Lexorder\<close> over the byte order of \<open>HOL-Library.Char_ord\<close>
  is the order Python's \<open>sorted\<close> uses on \<open>str\<close> (code point order, which UTF-8 keeps).
\<close>

text \<open>\<open>str(n)\<close> for a non-negative integer: its decimal digits.\<close>

fun str :: "nat \<Rightarrow> string" where
  "str n = (if n < 10 then [''0123456789'' ! n]
            else str (n div 10) @ [''0123456789'' ! (n mod 10)])"

declare str.simps [simp del]

text \<open>
  \<open>s.replace(old, new)\<close>: every non-overlapping occurrence of \<open>old\<close>, found from the
  left, is replaced by \<open>new\<close>; an empty \<open>old\<close> matches before every character and at
  the end.
\<close>

function str_replace :: "string \<Rightarrow> string \<Rightarrow> string \<Rightarrow> string" where
  "str_replace [] old new = (if old = [] then new else [])"
| "str_replace (c # cs) old new =
     (if old = [] then new @ c # str_replace cs old new
      else if prefix old (c # cs)
        then new @ str_replace (drop (length old) (c # cs)) old new
      else c # str_replace cs old new)"
  by pat_completeness auto
termination
  by (relation "measure (\<lambda>(s, old, new). length s)") auto

text \<open>\<open>sep.join(xs)\<close>.\<close>

fun str_join :: "string \<Rightarrow> string list \<Rightarrow> string" where
  "str_join sep [] = []"
| "str_join sep [x] = x"
| "str_join sep (x # y # ys) = x @ sep @ str_join sep (y # ys)"

text \<open>Truthiness of the result of \<open>os.environ.get\<close> or \<open>dict.get\<close> on a string value:
  \<open>None\<close> and the empty string are falsy.\<close>

definition truthy :: "string option \<Rightarrow> bool" where
  "truthy s = (case s of None \<Rightarrow> False | Some v \<Rightarrow> v \<noteq> [])"

section \<open>Floats\<close>

text \<open>
  A finite IEEE double, as \<open>timer()\<close> returns it: \<open>Double m e\<close> is the number
  \<open>m * 2 ^ e\<close>, with fewer than 54 bits in \<open>m\<close> and \<open>e\<close> at least \<open>-1074\<close>.
\<close>

datatype double = Double int int

text \<open>\<open>int.bit_length\<close> of a non-negative integer.\<close>

fun bit_length :: "nat \<Rightarrow> nat" where
  "bit_length n = (if n = 0 then 0 else Suc (bit_length (n div 2)))"

declare bit_length.simps [simp del]

text \<open>
  The double nearest to \<open>m * 2 ^ e\<close>, ties to the even mantissa: a mantissa of more
  than 53 bits loses its low bits \<open>r\<close> and is rounded up when they are more than half
  a unit, or exactly half and the kept part is odd.
\<close>

definition round_to_double :: "int \<Rightarrow> int \<Rightarrow> double" where
  "round_to_double m e =
     (let n = bit_length (nat \<bar>m\<bar>)
      in if n \<le> 53 then Double m e
         else (let s = n - 53;
                   q = m div 2 ^ s;
                   r = m mod 2 ^ s;
                   half = 2 ^ (s - 1)
               in Double (if half < r \<or> (r = half \<and> odd q) then q + 1 else q)
                         (e + int s)))"

text \<open>
  \<open>a - b\<close> on doubles: the exact difference, rounded to the nearest double. (The
  difference of two doubles is a multiple of the smaller unit, so nothing is lost below
  the subnormal range; two readings of a clock do not overflow.)
\<close>

fun float_sub :: "double \<Rightarrow> double \<Rightarrow> double" where
  "float_sub (Double m1 e1) (Double m2 e2) =
     (let e = min e1 e2
      in round_to_double (m1 * 2 ^ nat (e1 - e) - m2 * 2 ^ nat (e2 - e)) e)"

text \<open>\<open>x > k\<close> for a double \<open>x\<close> and an integer \<open>k\<close>, which Python compares exactly.\<close>

fun float_gt_int :: "double \<Rightarrow> int \<Rightarrow> bool" where
  "float_gt_int (Double m e) k =
     (if 0 \<le> e then k < m * 2 ^ nat e else k * 2 ^ nat (- e) < m)"

section \<open>Data\<close>

type_synonym headers = "(string \<times> string) list"

text \<open>
  One entry of \<open>result["vehicleSummary"]\<close>, which \<open>pd.json_normalize\<close> turns into one
  row of the data frame: the column \<open>vin\<close> and the other columns. Every entry is taken
  to carry a \<open>vin\<close>, as the API's listings do.
\<close>

record vehicle =
  vin :: string
  attrs :: "(string \<times> string) list"

text \<open>
  The value of \<open>resp.json()["data"]["locateVehiclesByZip"]\<close>: a falsy value (null, an
  empty object), or an object, with its \<open>vehicleSummary\<close> when it has that key. A
  \<open>vehicleSummary\<close> is taken to be a list of entries, as the API returns it.
\<close>

datatype locate = Falsy | Dict "vehicle list option"

text \<open>
  What one call of \<open>requests.post\<close> does: it raises (connection error, timeout), or it
  returns a response, whose body either has the path \<open>data.locateVehiclesByZip\<close> or does
  not (not JSON, as the WAF's challenge page; or JSON without the path).
\<close>

datatype response = Raises | Body "locate option"

text \<open>
  The exceptions that leave the functions modelled here: of \<open>open\<close>, of \<open>str.replace\<close>
  with \<open>None\<close>, of \<open>requests.post\<close>, of \<open>WAFBypass().run()\<close> (whatever the browser
  run raises), and of \<open>sys.exit\<close> with its message.
\<close>

datatype error =
    FileNotFoundError
  | TypeError
  | RequestException
  | WAFBypassError
  | SystemExit string

text \<open>The lines printed, without their formatting; \<open>Found n d\<close> is
  \<open>Found {n} (+{d}) vehicles so far\<close>, \<open>Response_dump\<close> a print of the response's
  headers or text.\<close>

datatype line =
    Bypassing_WAF
  | Refreshing_WAF_bypass
  | Getting_page nat
  | Response_dump
  | Found nat int
  | All_vehicles_found
  | No_vehicles_found

text \<open>
  The surroundings of one run: the module's globals read from the environment, the
  content of \<open>graphql/vehicles.graphql\<close> (\<open>None\<close> when it cannot be opened), and, for
  each external call, what its \<open>k\<close>-th invocation (counted from 0) returns.
  \<open>WAFBypass_run k = None\<close> stands for a browser run that raises.
\<close>

record env =
  MODEL :: "string option"
  ZIPCODE :: "string option"
  DISTANCE :: "string option"
  vehicles_graphql :: "string option"
  uuid4 :: "nat \<Rightarrow> string"
  timer :: "nat \<Rightarrow> double"
  WAFBypass_run :: "nat \<Rightarrow> headers option"
  requests_post :: "nat \<Rightarrow> response"

text \<open>
  The effects of a run so far: the slot of \<open>functools.cache\<close> on
  \<open>get_vehicles_query\<close>, how often each external call was made, the requests posted
  (query string and headers), the number of \<open>sleep(10)\<close> calls and the lines printed.
\<close>

record world =
  query_cache :: "string option"
  uuid_calls :: nat
  timer_calls :: nat
  waf_calls :: nat
  posts :: "(string \<times> headers) list"
  sleeps :: nat
  stdout :: "line list"

text \<open>The local variables of \<open>get_all_pages\<close>.\<close>

record crawl =
  df :: "vehicle list"
  page_number :: nat
  headers :: headers
  timer_start :: double
  last_run_counter :: nat

section \<open>The data frame\<close>

text \<open>
  \<open>df.drop_duplicates(subset=["vin"])\<close> with pandas' default \<open>keep="first"\<close>: a row is
  dropped when an earlier row has the same \<open>vin\<close>. \<open>keep_first seen\<close> walks the rows
  with the set of the \<open>vin\<close>s met so far.
\<close>

fun keep_first :: "string set \<Rightarrow> vehicle list \<Rightarrow> vehicle list" where
  "keep_first seen [] = []"
| "keep_first seen (r # rs) =
     (if vin r \<in> seen then keep_first seen rs
      else r # keep_first (insert (vin r) seen) rs)"

definition drop_duplicates :: "vehicle list \<Rightarrow> vehicle list" where
  "drop_duplicates rows = keep_first {} rows"

section \<open>The query\<close>

text \<open>
  \<open>get_vehicles_query\<close> under \<open>@cache\<close>: a stored result is returned as it is; otherwise
  the file is read, the placeholders are replaced in the source's order (a \<open>None\<close>
  global makes \<open>str.replace\<close> raise \<open>TypeError\<close>), and the result is stored. A call that
  raises stores nothing.
\<close>

definition get_vehicles_query :: "env \<Rightarrow> world \<Rightarrow> (error + string) \<times> world" where
  "get_vehicles_query e w =
     (case query_cache w of
        Some q \<Rightarrow> (Inr q, w)
      | None \<Rightarrow>
         (case vehicles_graphql e of
            None \<Rightarrow> (Inl FileNotFoundError, w)
          | Some query \<Rightarrow>
             (case ZIPCODE e of
                None \<Rightarrow> (Inl TypeError, w)
              | Some z \<Rightarrow>
                 (case MODEL e of
                    None \<Rightarrow> (Inl TypeError, w)
                  | Some m \<Rightarrow>
                     (case DISTANCE e of
                        None \<Rightarrow> (Inl TypeError, w)
                      | Some d \<Rightarrow>
                         (let q = str_replace
                                    (str_replace
                                      (str_replace
                                        (str_replace query ''ZIPCODE'' z)
                                        ''MODELCODE'' m)
                                      ''DISTANCEMILES'' d)
                                    ''LEADIDUUID'' (uuid4 e (uuid_calls w))
                          in (Inr q, w\<lparr>query_cache := Some q,
                                       uuid_calls := Suc (uuid_calls w)\<rparr>)))))))"

section \<open>One page\<close>

text \<open>
  \<open>query_toyota\<close>: the page number is substituted, the request is posted (outside the
  \<open>try\<close>, so an exception of \<open>requests.post\<close> propagates), and the response is read:
  \<open>None\<close> when the path is missing, the value is falsy or has no \<open>vehicleSummary\<close>,
  the value otherwise. The result is given as the \<open>vehicleSummary\<close> list.
\<close>

definition query_toyota ::
  "env \<Rightarrow> nat \<Rightarrow> string \<Rightarrow> headers \<Rightarrow> world \<Rightarrow> (error + vehicle list option) \<times> world" where
  "query_toyota e page query hdrs w =
     (let query' = str_replace query ''PAGENUMBER'' (str page);
          w1 = w\<lparr>posts := posts w @ [(query', hdrs)]\<rparr>
      in case requests_post e (length (posts w)) of
           Raises \<Rightarrow> (Inl RequestException, w1)
         | Body None \<Rightarrow> (Inr None, w1\<lparr>stdout := stdout w1 @ [Response_dump, Response_dump]\<rparr>)
         | Body (Some Falsy) \<Rightarrow> (Inr None, w1\<lparr>stdout := stdout w1 @ [Response_dump]\<rparr>)
         | Body (Some (Dict None)) \<Rightarrow> (Inr None, w1\<lparr>stdout := stdout w1 @ [Response_dump]\<rparr>)
         | Body (Some (Dict (Some vs))) \<Rightarrow> (Inr (Some vs), w1))"

section \<open>The crawl loop\<close>

text \<open>
  Lines 100 to 104 of \<open>get_all_pages\<close>: the timer is read; when the float
  \<open>timer() - timer_start\<close> is greater than \<open>4 * 60\<close>, the WAF bypass is run again and
  the timer is read again.
\<close>

definition refresh :: "env \<Rightarrow> crawl \<Rightarrow> world \<Rightarrow> (error + crawl) \<times> world" where
  "refresh e c w =
     (let elapsed_time = float_sub (timer e (timer_calls w)) (timer_start c);
          w1 = w\<lparr>timer_calls := Suc (timer_calls w)\<rparr>
      in if float_gt_int elapsed_time (4 * 60) then
           (let w2 = w1\<lparr>stdout := stdout w1 @ [Refreshing_WAF_bypass]\<rparr>;
                w3 = w2\<lparr>waf_calls := Suc (waf_calls w2)\<rparr>
            in case WAFBypass_run e (waf_calls w2) of
                 None \<Rightarrow> (Inl WAFBypassError, w3)
               | Some h \<Rightarrow>
                   (Inr (c\<lparr>headers := h, timer_start := timer e (timer_calls w3)\<rparr>),
                    w3\<lparr>timer_calls := Suc (timer_calls w3)\<rparr>))
         else (Inr c, w1))"

text \<open>How one pass through the body of \<open>while True\<close> (after the page check) ends.\<close>

datatype step = Raised error world | Broke "vehicle list" world | Continued crawl world

definition iteration :: "env \<Rightarrow> string \<Rightarrow> crawl \<Rightarrow> world \<Rightarrow> step" where
  "iteration e query c w =
     (case refresh e c w of
        (Inl err, w1) \<Rightarrow> Raised err w1
      | (Inr c1, w1) \<Rightarrow>
         (let w2 = w1\<lparr>stdout := stdout w1 @ [Getting_page (page_number c1)]\<rparr>
          in case query_toyota e (page_number c1) query (headers c1) w2 of
               (Inl err, w3) \<Rightarrow> Raised err w3
             | (Inr result, w3) \<Rightarrow>
                (let df1 = (case result of Some vs \<Rightarrow> df c1 @ vs | None \<Rightarrow> df c1);
                     df2 = drop_duplicates df1;
                     w4 = w3\<lparr>stdout := stdout w3 @
                            [Found (length df2)
                               (int (length df2) - int (last_run_counter c1))]\<rparr>
                 in if length df2 = last_run_counter c1
                    then Broke df2 (w4\<lparr>stdout := stdout w4 @ [All_vehicles_found]\<rparr>)
                    else Continued
                           (c1\<lparr>df := df2, last_run_counter := length df2,
                               page_number := page_number c1 + 1\<rparr>)
                           (w4\<lparr>sleeps := Suc (sleeps w4)\<rparr>))))"

function crawl_loop :: "env \<Rightarrow> string \<Rightarrow> crawl \<Rightarrow> world \<Rightarrow> (error + vehicle list) \<times> world" where
  "crawl_loop e query c w =
     (if page_number c > 40 then (Inr (df c), w)
      else case iteration e query c w of
             Raised err w' \<Rightarrow> (Inl err, w')
           | Broke d w' \<Rightarrow> (Inr d, w')
           | Continued c' w' \<Rightarrow> crawl_loop e query c' w')"
  by pat_completeness auto
termination
  by (relation "measure (\<lambda>(e, query, c, w). 41 - page_number c)")
     (auto simp: iteration_def refresh_def Let_def
        split: prod.splits sum.splits option.splits if_splits)

declare crawl_loop.simps [simp del]

definition get_all_pages :: "env \<Rightarrow> world \<Rightarrow> (error + vehicle list) \<times> world" where
  "get_all_pages e w =
     (case get_vehicles_query e w of
        (Inl err, w1) \<Rightarrow> (Inl err, w1)
      | (Inr query, w1) \<Rightarrow>
         (let w2 = w1\<lparr>stdout := stdout w1 @ [Bypassing_WAF]\<rparr>;
              w3 = w2\<lparr>waf_calls := Suc (waf_calls w2)\<rparr>
          in case WAFBypass_run e (waf_calls w2) of
               None \<Rightarrow> (Inl WAFBypassError, w3)
             | Some h \<Rightarrow>
                 crawl_loop e query
                   \<lparr>df = [], page_number = 1, headers = h,
                    timer_start = timer e (timer_calls w3), last_run_counter = 0\<rparr>
                   (w3\<lparr>timer_calls := Suc (timer_calls w3)\<rparr>)))"

section \<open>The entry point\<close>

text \<open>
  \<open>update_vehicles\<close> up to the point where the frame is handed to the writers
  (\<open>to_json_raw\<close>, \<open>to_csv_simple\<close>), which are not modelled: the result is \<open>None\<close>
  when there is nothing to list and the frame to be written otherwise.
\<close>

definition update_vehicles :: "env \<Rightarrow> world \<Rightarrow> (error + vehicle list option) \<times> world" where
  "update_vehicles e w =
     (if \<not> truthy (MODEL e)
        then (Inl (SystemExit ''Set the MODEL environment variable first''), w)
      else if \<not> truthy (ZIPCODE e)
        then (Inl (SystemExit ''Set the ZIPCODE environment variable first''), w)
      else if \<not> truthy (DISTANCE e)
        then (Inl (SystemExit ''Set the DISTANCE environment variable first''), w)
      else case get_all_pages e w of
             (Inl err, w1) \<Rightarrow> (Inl err, w1)
           | (Inr d, w1) \<Rightarrow>
               if d = [] then (Inr None, w1\<lparr>stdout := stdout w1 @ [No_vehicles_found]\<rparr>)
               else (Inr (Some d), w1))"

section \<open>Formatting the options column\<close>

text \<open>One entry of a row's \<open>options\<close> list; a field is \<open>None\<close> when the key is absent
  or null.\<close>

record option_item =
  marketingName :: "string option"
  marketingLongName :: "string option"

definition add_item :: "option_item \<Rightarrow> string set \<Rightarrow> string set" where
  "add_item item options =
     (if truthy (marketingName item) then insert (the (marketingName item)) options
      else if truthy (marketingLongName item) then insert (the (marketingLongName item)) options
      else options)"

definition format_options :: "option_item list \<Rightarrow> string" where
  "format_options options_raw =
     str_join '' | '' (sorted_list_of_set (fold add_item options_raw {}))"

text \<open>
  The same function as its description reads: each entry names itself by its
  \<open>marketingName\<close> when that is present and truthy, otherwise by its
  \<open>marketingLongName\<close> when that is, and not at all otherwise; the result joins the
  sorted set of the names.
\<close>

definition option_name :: "option_item \<Rightarrow> string option" where
  "option_name item =
     (if truthy (marketingName item) then marketingName item
      else if truthy (marketingLongName item) then marketingLongName item
      else None)"

definition format_options_spec :: "option_item list \<Rightarrow> string" where
  "format_options_spec options_raw =
     str_join '' | '' (sorted_list_of_set (set (List.map_filter option_name options_raw)))"

section \<open>Notions used to state the properties\<close>

text \<open>The rows a response adds to the frame in \<open>get_all_pages\<close>: its \<open>vehicleSummary\<close>
  list when \<open>query_toyota\<close> returns the result, nothing when it returns \<open>None\<close>.\<close>

definition page_rows :: "response \<Rightarrow> vehicle list" where
  "page_rows r = (case r of Body (Some (Dict (Some vs))) \<Rightarrow> vs | _ \<Rightarrow> [])"

text \<open>The accumulated sizes printed by the \<open>Found ... vehicles so far\<close> lines, in order.\<close>

definition found_sizes :: "line list \<Rightarrow> nat list" where
  "found_sizes ls = List.map_filter (\<lambda>l. case l of Found n d \<Rightarrow> Some n | _ \<Rightarrow> None) ls"

text \<open>The invariant of the loop's variables at the head of each iteration: the frame
  holds no \<open>vin\<close> twice and \<open>last_run_counter\<close> is its length.\<close>

definition deduplicated :: "crawl \<Rightarrow> bool" where
  "deduplicated c = (distinct (map vin (df c)) \<and> last_run_counter c = length (df c))"

text \<open>The responses on which \<open>query_toyota\<close> returns \<open>None\<close>: a body without the
  path \<open>data.locateVehiclesByZip\<close> (the WAF's challenge page, an error page), a falsy
  value there, or an object without \<open>vehicleSummary\<close>.\<close>

definition returns_None :: "response \<Rightarrow> bool" where
  "returns_None r = (r = Body None \<or> r = Body (Some Falsy) \<or> r = Body (Some (Dict None)))"

text \<open>The \<open>vin\<close>s listed by the response to the \<open>k\<close>-th request.\<close>

definition page_vins :: "env \<Rightarrow> nat \<Rightarrow> string set" where
  "page_vins e k = vin ` set (page_rows (requests_post e k))"

text \<open>Counted from request \<open>n\<close>, each of the next 40 responses lists a \<open>vin\<close> that
  none of the responses before it (from \<open>n\<close> on) has.\<close>

definition always_new :: "env \<Rightarrow> nat \<Rightarrow> bool" where
  "always_new e n = (\<forall>k<40. \<not> page_vins e (n + k) \<subseteq> (\<Union>i<k. page_vins e (n + i)))"

section \<open>Example runs\<close>

definition car :: "string \<Rightarrow> string \<Rightarrow> vehicle" where
  "car v p = \<lparr>vin = v, attrs = [(''price.totalMsrp'', p)]\<rparr>"

definition page :: "vehicle list \<Rightarrow> response" where
  "page vs = Body (Some (Dict (Some vs)))"

text \<open>A run for the model \<open>sienna\<close> in which the clock advances 11 seconds between
  two readings and every browser run succeeds; the responses are a parameter.\<close>

definition example_env :: "(nat \<Rightarrow> response) \<Rightarrow> env" where
  "example_env pages =
     \<lparr>MODEL = Some ''sienna'', ZIPCODE = Some ''90210'', DISTANCE = Some ''100'',
      vehicles_graphql = Some ''zip ZIPCODE model MODELCODE miles DISTANCEMILES page PAGENUMBER lead LEADIDUUID'',
      uuid4 = (\<lambda>k. ''uuid'' @ str k),
      timer = (\<lambda>k. Double (11 * int k) 0),
      WAFBypass_run = (\<lambda>k. Some [(''x-aws-waf-token'', str k)]),
      requests_post = pages\<rparr>"

definition fresh_world :: world where
  "fresh_world =
     \<lparr>query_cache = None, uuid_calls = 0, timer_calls = 0, waf_calls = 0,
      posts = [], sleeps = 0, stdout = []\<rparr>"

text \<open>Page 1 lists one vehicle, page 2 is answered by the WAF's challenge page,
  page 3 and the later ones list another vehicle.\<close>

definition blocked_pages :: "nat \<Rightarrow> response" where
  "blocked_pages k =
     (if k = 0 then page [car ''VIN-A'' ''41000'']
      else if k = 1 then Body None
      else page [car ''VIN-B'' ''42000''])"

text \<open>Page 1 lists one vehicle, the request for page 2 times out.\<close>

definition timeout_pages :: "nat \<Rightarrow> response" where
  "timeout_pages k =
     (if k = 0 then page [car ''VIN-A'' ''41000'']
      else if k = 1 then Raises
      else page [car ''VIN-B'' ''42000''])"

text \<open>Pages 1 and 2 list the same two vehicles, later pages a third one.\<close>

definition repeating_pages :: "nat \<Rightarrow> response" where
  "repeating_pages k =
     (if k = 0 then page [car ''VIN-A'' ''41000'', car ''VIN-B'' ''42000'']
      else if k = 1 then page [car ''VIN-B'' ''42000'', car ''VIN-A'' ''41000'']
      else page [car ''VIN-C'' ''43000''])"

text \<open>Every page lists a vehicle that no earlier page has.\<close>

definition growing_pages :: "nat \<Rightarrow> response" where
  "growing_pages k = page [car (replicate (Suc k) CHR ''V'') ''41000'']"

text \<open>The state of the loop after page 1 has listed two vehicles.\<close>

definition midway :: crawl where
  "midway =
     \<lparr>df = [car ''VIN-A'' ''41000'', car ''VIN-B'' ''42000''], page_number = 2,
      headers = [(''x-aws-waf-token'', ''0'')], timer_start = Double 0 0,
      last_run_counter = 2\<rparr>"

definition midway_world :: world where
  "midway_world =
     \<lparr>query_cache = Some ''page PAGENUMBER'', uuid_calls = 1, timer_calls = 2, waf_calls = 1,
      posts = [(''page 1'', [(''x-aws-waf-token'', ''0'')])],
      sleeps = 1, stdout = []\<rparr>"

text \<open>A run in which 150 seconds pass between two readings of the clock.\<close>

definition slow_env :: env where
  "slow_env = (example_env growing_pages)\<lparr>timer := (\<lambda>k. Double (150 * int k) 0)\<rparr>"

text \<open>A run in which the clock reads 240.3 (the double nearest to it); with
  \<open>timer_start\<close> at the double nearest to 0.3 the float difference is exactly 240.\<close>

definition edge_env :: env where
  "edge_env =
     (example_env growing_pages)\<lparr>timer := (\<lambda>k. Double 8454804612946330 (- 45))\<rparr>"

section \<open>The data frame: properties\<close>

lemma keep_first_append:
  "keep_first S (xs @ ys) = keep_first S xs @ keep_first (S \<union> vin ` set xs) ys"
  by (induction xs arbitrary: S) (auto simp: insert_absorb)

lemma keep_first_fresh:
  "distinct (map vin xs) \<Longrightarrow> vin ` set xs \<inter> S = {} \<Longrightarrow> keep_first S xs = xs"
  by (induction xs arbitrary: S) auto

lemma keep_first_seen:
  "vin ` set ys \<subseteq> S \<Longrightarrow> keep_first S ys = []"
  by (induction ys arbitrary: S) auto

lemma vins_keep_first:
  "vin ` set (keep_first S xs) = vin ` set xs - S"
  by (induction xs arbitrary: S) auto

lemma distinct_keep_first:
  "distinct (map vin (keep_first S xs))"
  by (induction xs arbitrary: S) (auto simp: vins_keep_first)

lemma drop_duplicates_distinct: "distinct (map vin (drop_duplicates xs))"
  by (simp add: drop_duplicates_def distinct_keep_first)

lemma drop_duplicates_vins: "vin ` set (drop_duplicates xs) = vin ` set xs"
  by (simp add: drop_duplicates_def vins_keep_first)

lemma drop_duplicates_concat:
  "distinct (map vin rows) \<Longrightarrow>
   drop_duplicates (rows @ new) = rows @ keep_first (vin ` set rows) new"
  by (simp add: drop_duplicates_def keep_first_append keep_first_fresh)

text \<open>
  C7, as the code has it. Merging a row whose \<open>vin\<close> the frame already holds leaves the
  frame as it was: the size is unchanged and the row stored first is kept, the new
  attributes are dropped (first write wins). Merging the same rows a second time gives
  the frame of a single merge.
\<close>

theorem merge_known_vin_keeps_first:
  "(distinct (map vin rows) \<and> vin r \<in> vin ` set rows \<longrightarrow>
      drop_duplicates (rows @ [r]) = rows)
   \<and> drop_duplicates (drop_duplicates (rows @ new) @ new) = drop_duplicates (rows @ new)"
proof (intro conjI impI)
  assume "distinct (map vin rows) \<and> vin r \<in> vin ` set rows"
  then show "drop_duplicates (rows @ [r]) = rows"
    by (simp add: drop_duplicates_concat)
next
  have "vin ` set new \<subseteq> vin ` set (drop_duplicates (rows @ new))"
    by (simp add: drop_duplicates_vins image_Un)
  then show "drop_duplicates (drop_duplicates (rows @ new) @ new) = drop_duplicates (rows @ new)"
    by (simp add: drop_duplicates_concat drop_duplicates_distinct keep_first_seen)
qed

theorem merge_known_vin_keeps_first_witness:
  "distinct (map vin [car ''VIN-A'' ''41000'']) \<and>
   vin (car ''VIN-A'' ''39000'') \<in> vin ` set [car ''VIN-A'' ''41000''] \<and>
   drop_duplicates ([car ''VIN-A'' ''41000''] @ [car ''VIN-A'' ''39000''])
     = [car ''VIN-A'' ''41000'']"
  using merge_known_vin_keeps_first
    [of "[car ''VIN-A'' ''41000'']" "car ''VIN-A'' ''39000''"]
  by (simp add: car_def)

text \<open>
  C7, as the claim has it, fails: after a row with a known \<open>vin\<close> and a new price is
  merged, the frame still holds the old price and not the new one.
\<close>

theorem merge_last_write_wins_counterexample:
  "drop_duplicates ([car ''VIN-A'' ''41000''] @ [car ''VIN-A'' ''39000''])
     = [car ''VIN-A'' ''41000'']
   \<and> car ''VIN-A'' ''39000''
       \<notin> set (drop_duplicates ([car ''VIN-A'' ''41000''] @ [car ''VIN-A'' ''39000'']))"
  by (simp add: drop_duplicates_def car_def)

section \<open>The entry point: properties\<close>

text \<open>
  C8. When \<open>MODEL\<close>, \<open>ZIPCODE\<close> or \<open>DISTANCE\<close> is unset or empty, \<open>update_vehicles\<close>
  ends in \<open>sys.exit\<close> and the world is as it was before the call: no request was
  posted, no browser run was made, no query was built.
\<close>

theorem missing_parameter_exits:
  assumes "\<not> truthy (MODEL e) \<or> \<not> truthy (ZIPCODE e) \<or> \<not> truthy (DISTANCE e)"
  shows "(\<exists>msg. fst (update_vehicles e w) = Inl (SystemExit msg))
         \<and> snd (update_vehicles e w) = w"
  using assms by (auto simp: update_vehicles_def)

theorem missing_parameter_exits_witness:
  "\<not> truthy (ZIPCODE (example_env growing_pages\<lparr>ZIPCODE := Some []\<rparr>))
   \<and> (\<exists>msg. fst (update_vehicles (example_env growing_pages\<lparr>ZIPCODE := Some []\<rparr>) fresh_world)
         = Inl (SystemExit msg))
   \<and> posts (snd (update_vehicles (example_env growing_pages\<lparr>ZIPCODE := Some []\<rparr>) fresh_world)) = []
   \<and> waf_calls (snd (update_vehicles (example_env growing_pages\<lparr>ZIPCODE := Some []\<rparr>) fresh_world)) = 0"
  using missing_parameter_exits
    [of "example_env growing_pages\<lparr>ZIPCODE := Some []\<rparr>" fresh_world]
  by (simp add: truthy_def example_env_def fresh_world_def)

section \<open>Formatting the options column: properties\<close>

lemma fold_add_item:
  "fold add_item items acc = acc \<union> set (List.map_filter option_name items)"
  by (induction items arbitrary: acc)
     (auto simp: add_item_def option_name_def map_filter_simps truthy_def
        split: option.splits)

lemma set_map_filter_cong:
  "set xs = set ys \<Longrightarrow> set (List.map_filter f xs) = set (List.map_filter f ys)"
  by (auto simp: map_filter_def)

text \<open>
  C10. \<open>format_options\<close> is the join, with \<open>" | "\<close>, of the sorted set of the entries'
  names, an entry's name being its truthy \<open>marketingName\<close>, else its truthy
  \<open>marketingLongName\<close>, else none; so two inputs with the same set of entries (one a
  permutation of the other, or with entries repeated) give the same string.
\<close>

theorem format_options_sorted_distinct_names:
  "format_options items = format_options_spec items
   \<and> (set items = set items' \<longrightarrow> format_options items = format_options items')"
  by (auto simp: format_options_def format_options_spec_def fold_add_item
      dest: set_map_filter_cong [where f = option_name])

theorem format_options_sorted_distinct_names_witness:
  "set [\<lparr>marketingName = Some ''Roof rails'', marketingLongName = None\<rparr>,
        \<lparr>marketingName = Some [], marketingLongName = Some ''All-weather mats''\<rparr>,
        \<lparr>marketingName = None, marketingLongName = None\<rparr>]
   = set [\<lparr>marketingName = None, marketingLongName = None\<rparr>,
          \<lparr>marketingName = Some [], marketingLongName = Some ''All-weather mats''\<rparr>,
          \<lparr>marketingName = Some ''Roof rails'', marketingLongName = None\<rparr>,
          \<lparr>marketingName = Some ''Roof rails'', marketingLongName = None\<rparr>]
   \<and> format_options
       [\<lparr>marketingName = Some ''Roof rails'', marketingLongName = None\<rparr>,
        \<lparr>marketingName = Some [], marketingLongName = Some ''All-weather mats''\<rparr>,
        \<lparr>marketingName = None, marketingLongName = None\<rparr>]
     = format_options
       [\<lparr>marketingName = None, marketingLongName = None\<rparr>,
        \<lparr>marketingName = Some [], marketingLongName = Some ''All-weather mats''\<rparr>,
        \<lparr>marketingName = Some ''Roof rails'', marketingLongName = None\<rparr>,
        \<lparr>marketingName = Some ''Roof rails'', marketingLongName = None\<rparr>]"
  using format_options_sorted_distinct_names
    [of "[\<lparr>marketingName = Some ''Roof rails'', marketingLongName = None\<rparr>,
          \<lparr>marketingName = Some [], marketingLongName = Some ''All-weather mats''\<rparr>,
          \<lparr>marketingName = None, marketingLongName = None\<rparr>]"
        "[\<lparr>marketingName = None, marketingLongName = None\<rparr>,
          \<lparr>marketingName = Some [], marketingLongName = Some ''All-weather mats''\<rparr>,
          \<lparr>marketingName = Some ''Roof rails'', marketingLongName = None\<rparr>,
          \<lparr>marketingName = Some ''Roof rails'', marketingLongName = None\<rparr>]"]
  by auto

section \<open>One iteration: what each outcome says\<close>

lemma found_sizes_append: "found_sizes (xs @ ys) = found_sizes xs @ found_sizes ys"
  by (simp add: found_sizes_def map_filter_def)

lemma found_sizes_simps:
  "found_sizes [] = []"
  "found_sizes (l # ls) = (case l of Found n d \<Rightarrow> n # found_sizes ls | _ \<Rightarrow> found_sizes ls)"
  by (simp_all add: found_sizes_def map_filter_def split: line.splits)

lemma refresh_Inr:
  assumes "refresh e c w = (Inr c1, w1)"
  shows "df c1 = df c \<and> page_number c1 = page_number c
         \<and> last_run_counter c1 = last_run_counter c
         \<and> posts w1 = posts w \<and> query_cache w1 = query_cache w
         \<and> uuid_calls w1 = uuid_calls w
         \<and> found_sizes (stdout w1) = found_sizes (stdout w)"
  using assms
  by (auto simp: refresh_def Let_def found_sizes_append found_sizes_simps
      split: if_splits option.splits)

lemma refresh_Inl:
  assumes "refresh e c w = (Inl err, w1)"
  shows "err = WAFBypassError \<and> (\<exists>k. WAFBypass_run e k = None)
         \<and> posts w1 = posts w \<and> query_cache w1 = query_cache w
         \<and> uuid_calls w1 = uuid_calls w
         \<and> found_sizes (stdout w1) = found_sizes (stdout w)"
  using assms
  by (auto simp: refresh_def Let_def found_sizes_append found_sizes_simps
      split: if_splits option.splits)

lemma query_toyota_Inr:
  assumes "query_toyota e p q h w = (Inr result, w')"
  shows "requests_post e (length (posts w)) \<noteq> Raises
         \<and> (case result of Some vs \<Rightarrow> rows @ vs | None \<Rightarrow> rows)
             = rows @ page_rows (requests_post e (length (posts w)))
         \<and> posts w' = posts w @ [(str_replace q ''PAGENUMBER'' (str p), h)]
         \<and> query_cache w' = query_cache w \<and> uuid_calls w' = uuid_calls w
         \<and> found_sizes (stdout w') = found_sizes (stdout w)"
  using assms
  by (auto simp: query_toyota_def Let_def page_rows_def found_sizes_append found_sizes_simps
      split: response.splits option.splits locate.splits)

lemma query_toyota_Inl:
  assumes "query_toyota e p q h w = (Inl err, w')"
  shows "err = RequestException \<and> requests_post e (length (posts w)) = Raises
         \<and> posts w' = posts w @ [(str_replace q ''PAGENUMBER'' (str p), h)]
         \<and> query_cache w' = query_cache w \<and> uuid_calls w' = uuid_calls w
         \<and> found_sizes (stdout w') = found_sizes (stdout w)"
  using assms
  by (auto simp: query_toyota_def Let_def
      split: response.splits option.splits locate.splits)

lemma iteration_Raised:
  assumes "iteration e q c w = Raised err w'"
  shows "((err = WAFBypassError \<and> fst (refresh e c w) = Inl err
           \<and> (\<exists>k. WAFBypass_run e k = None) \<and> posts w' = posts w)
          \<or> (err = RequestException \<and> requests_post e (length (posts w)) = Raises
              \<and> (\<exists>c1. fst (refresh e c w) = Inr c1
                    \<and> posts w' = posts w @ [(str_replace q ''PAGENUMBER'' (str (page_number c)), headers c1)])))
         \<and> query_cache w' = query_cache w \<and> uuid_calls w' = uuid_calls w
         \<and> found_sizes (stdout w') = found_sizes (stdout w)"
proof (cases "refresh e c w")
  case (Pair r w1)
  show ?thesis
  proof (cases r)
    case (Inl err1)
    with Pair assms refresh_Inl [of e c w err1 w1] show ?thesis
      by (simp add: iteration_def)
  next
    case (Inr c1)
    note f = refresh_Inr [OF Pair [unfolded Inr]]
    obtain r3 w3 where qt: "query_toyota e (page_number c1) q (headers c1)
        (w1\<lparr>stdout := stdout w1 @ [Getting_page (page_number c1)]\<rparr>) = (r3, w3)"
      by (cases "query_toyota e (page_number c1) q (headers c1)
        (w1\<lparr>stdout := stdout w1 @ [Getting_page (page_number c1)]\<rparr>)")
    show ?thesis
    proof (cases r3)
      case (Inl err3)
      from query_toyota_Inl [OF qt [unfolded Inl]] f assms Pair Inr qt Inl
      show ?thesis
        by (auto simp: iteration_def found_sizes_append found_sizes_simps)
    next
      case (Inr res)
      with assms Pair \<open>r = Inr c1\<close> qt show ?thesis
        by (auto simp: iteration_def Let_def split: if_splits)
    qed
  qed
qed

lemma iteration_Broke:
  assumes "iteration e q c w = Broke d w'"
  shows "d = drop_duplicates (df c @ page_rows (requests_post e (length (posts w))))
         \<and> length d = last_run_counter c
         \<and> requests_post e (length (posts w)) \<noteq> Raises
         \<and> (\<exists>c1. fst (refresh e c w) = Inr c1
               \<and> posts w' = posts w @ [(str_replace q ''PAGENUMBER'' (str (page_number c)), headers c1)])
         \<and> query_cache w' = query_cache w \<and> uuid_calls w' = uuid_calls w
         \<and> found_sizes (stdout w') = found_sizes (stdout w) @ [length d]"
proof (cases "refresh e c w")
  case (Pair r w1)
  show ?thesis
  proof (cases r)
    case (Inl err1)
    with Pair assms show ?thesis
      by (simp add: iteration_def)
  next
    case (Inr c1)
    note f = refresh_Inr [OF Pair [unfolded Inr]]
    obtain r3 w3 where qt: "query_toyota e (page_number c1) q (headers c1)
        (w1\<lparr>stdout := stdout w1 @ [Getting_page (page_number c1)]\<rparr>) = (r3, w3)"
      by (cases "query_toyota e (page_number c1) q (headers c1)
        (w1\<lparr>stdout := stdout w1 @ [Getting_page (page_number c1)]\<rparr>)")
    show ?thesis
    proof (cases r3)
      case (Inl err3)
      with assms Pair \<open>r = Inr c1\<close> qt show ?thesis
        by (simp add: iteration_def)
    next
      case (Inr res)
      from query_toyota_Inr [OF qt [unfolded Inr], of "df c1"] f assms Pair \<open>r = Inr c1\<close> qt Inr
      show ?thesis
        by (auto simp: iteration_def Let_def found_sizes_append found_sizes_simps
            split: if_splits)
    qed
  qed
qed

lemma iteration_Continued:
  assumes "iteration e q c w = Continued c' w'"
  shows "df c' = drop_duplicates (df c @ page_rows (requests_post e (length (posts w))))
         \<and> last_run_counter c' = length (df c')
         \<and> length (df c') \<noteq> last_run_counter c
         \<and> page_number c' = Suc (page_number c)
         \<and> requests_post e (length (posts w)) \<noteq> Raises
         \<and> posts w' = posts w @ [(str_replace q ''PAGENUMBER'' (str (page_number c)), headers c')]
         \<and> query_cache w' = query_cache w \<and> uuid_calls w' = uuid_calls w
         \<and> found_sizes (stdout w') = found_sizes (stdout w) @ [length (df c')]
         \<and> (\<exists>c1. fst (refresh e c w) = Inr c1 \<and> headers c' = headers c1
                \<and> timer_start c' = timer_start c1)"
proof (cases "refresh e c w")
  case (Pair r w1)
  show ?thesis
  proof (cases r)
    case (Inl err1)
    with Pair assms show ?thesis
      by (simp add: iteration_def)
  next
    case (Inr c1)
    note f = refresh_Inr [OF Pair [unfolded Inr]]
    obtain r3 w3 where qt: "query_toyota e (page_number c1) q (headers c1)
        (w1\<lparr>stdout := stdout w1 @ [Getting_page (page_number c1)]\<rparr>) = (r3, w3)"
      by (cases "query_toyota e (page_number c1) q (headers c1)
        (w1\<lparr>stdout := stdout w1 @ [Getting_page (page_number c1)]\<rparr>)")
    show ?thesis
    proof (cases r3)
      case (Inl err3)
      with assms Pair \<open>r = Inr c1\<close> qt show ?thesis
        by (simp add: iteration_def)
    next
      case (Inr res)
      from query_toyota_Inr [OF qt [unfolded Inr], of "df c1"] f assms Pair \<open>r = Inr c1\<close> qt Inr
      show ?thesis
        by (auto simp: iteration_def Let_def found_sizes_append found_sizes_simps
            split: if_splits)
    qed
  qed
qed

section \<open>The crawl loop: invariants\<close>

lemma crawl_loop_stop: "40 < page_number c \<Longrightarrow> crawl_loop e q c w = (Inr (df c), w)"
  by (simp add: crawl_loop.simps)

lemma crawl_loop_step:
  "\<not> 40 < page_number c \<Longrightarrow>
   crawl_loop e q c w =
     (case iteration e q c w of
        Raised err w' \<Rightarrow> (Inl err, w')
      | Broke d w' \<Rightarrow> (Inr d, w')
      | Continued c' w' \<Rightarrow> crawl_loop e q c' w')"
  by (simp add: crawl_loop.simps [of e q c w])

lemma crawl_loop_posts_bound:
  "length (posts (snd (crawl_loop e q c w))) \<le> length (posts w) + (41 - page_number c)"
proof (induction e q c w rule: crawl_loop.induct)
  case (1 e q c w)
  show ?case
  proof (cases "40 < page_number c")
    case True
    then show ?thesis by (simp add: crawl_loop_stop)
  next
    case False
    show ?thesis
    proof (cases "iteration e q c w")
      case (Raised err w')
      from iteration_Raised [OF Raised] have "length (posts w') \<le> Suc (length (posts w))"
        by auto
      with False Raised show ?thesis by (simp add: crawl_loop_step)
    next
      case (Broke d w')
      from iteration_Broke [OF Broke] have "length (posts w') = Suc (length (posts w))"
        by auto
      with False Broke show ?thesis by (simp add: crawl_loop_step)
    next
      case (Continued c' w')
      from iteration_Continued [OF Continued]
      have "length (posts w') = Suc (length (posts w))" "page_number c' = Suc (page_number c)"
        by auto
      with "1.IH" [OF False Continued] False Continued show ?thesis
        by (simp add: crawl_loop_step)
    qed
  qed
qed

lemma crawl_loop_frame:
  "query_cache (snd (crawl_loop e q c w)) = query_cache w
   \<and> uuid_calls (snd (crawl_loop e q c w)) = uuid_calls w"
proof (induction e q c w rule: crawl_loop.induct)
  case (1 e q c w)
  show ?case
  proof (cases "40 < page_number c")
    case True
    then show ?thesis by (simp add: crawl_loop_stop)
  next
    case False
    show ?thesis
    proof (cases "iteration e q c w")
      case (Raised err w')
      with False iteration_Raised [OF Raised] show ?thesis by (simp add: crawl_loop_step)
    next
      case (Broke d w')
      with False iteration_Broke [OF Broke] show ?thesis by (simp add: crawl_loop_step)
    next
      case (Continued c' w')
      with "1.IH" [OF False Continued] False iteration_Continued [OF Continued]
      show ?thesis by (simp add: crawl_loop_step)
    qed
  qed
qed

lemma crawl_loop_requests:
  "\<exists>new. posts (snd (crawl_loop e q c w)) = posts w @ new
     \<and> map fst new = map (\<lambda>p. str_replace q ''PAGENUMBER'' (str p))
                        [page_number c ..< page_number c + length new]"
proof (induction e q c w rule: crawl_loop.induct)
  case (1 e q c w)
  show ?case
  proof (cases "40 < page_number c")
    case True
    then show ?thesis by (simp add: crawl_loop_stop)
  next
    case False
    show ?thesis
    proof (cases "iteration e q c w")
      case (Raised err w')
      from iteration_Raised [OF Raised]
      consider "posts w' = posts w"
        | h where "posts w' = posts w @ [(str_replace q ''PAGENUMBER'' (str (page_number c)), h)]"
        by auto
      then show ?thesis
      proof cases
        case 1
        with False Raised show ?thesis by (simp add: crawl_loop_step)
      next
        case 2
        with False Raised show ?thesis by (simp add: crawl_loop_step)
      qed
    next
      case (Broke d w')
      from iteration_Broke [OF Broke] obtain h where
        "posts w' = posts w @ [(str_replace q ''PAGENUMBER'' (str (page_number c)), h)]"
        by auto
      with False Broke show ?thesis by (simp add: crawl_loop_step)
    next
      case (Continued c' w')
      from iteration_Continued [OF Continued]
      have p: "posts w' = posts w @ [(str_replace q ''PAGENUMBER'' (str (page_number c)), headers c')]"
        and n: "page_number c' = Suc (page_number c)"
        by auto
      from "1.IH" [OF False Continued] obtain new where
        new: "posts (snd (crawl_loop e q c' w')) = posts w' @ new"
          "map fst new = map (\<lambda>p. str_replace q ''PAGENUMBER'' (str p))
                        [page_number c' ..< page_number c' + length new]"
        by blast
      let ?new = "(str_replace q ''PAGENUMBER'' (str (page_number c)), headers c') # new"
      have "posts (snd (crawl_loop e q c w)) = posts w @ ?new"
        using False Continued new(1) p by (simp add: crawl_loop_step)
      moreover have "map fst ?new = map (\<lambda>p. str_replace q ''PAGENUMBER'' (str p))
                        [page_number c ..< page_number c + length ?new]"
      proof -
        have "[page_number c ..< page_number c + length ?new]
              = page_number c # [page_number c' ..< page_number c' + length new]"
          using n by (subst upt_rec) simp
        with new(2) show ?thesis by simp
      qed
      ultimately show ?thesis by blast
    qed
  qed
qed

lemma merged_grows:
  assumes "distinct (map vin rows)"
  shows "prefix rows (drop_duplicates (rows @ new))
         \<and> length rows \<le> length (drop_duplicates (rows @ new))"
  using assms by (simp add: drop_duplicates_concat)

lemma merged_same:
  assumes "distinct (map vin rows)" "vin ` set new \<subseteq> vin ` set rows"
  shows "drop_duplicates (rows @ new) = rows"
  using assms by (simp add: drop_duplicates_concat keep_first_seen)

lemma merged_longer:
  assumes "distinct (map vin rows)" "\<not> vin ` set new \<subseteq> vin ` set rows"
  shows "length rows < length (drop_duplicates (rows @ new))"
proof -
  from assms(2) have "vin ` set (keep_first (vin ` set rows) new) \<noteq> {}"
    by (auto simp: vins_keep_first)
  then have "keep_first (vin ` set rows) new \<noteq> []" by auto
  with assms(1) show ?thesis by (simp add: drop_duplicates_concat)
qed

lemma crawl_loop_sizes:
  assumes "distinct (map vin (df c))"
  shows "\<exists>ns. found_sizes (stdout (snd (crawl_loop e q c w))) = found_sizes (stdout w) @ ns
           \<and> sorted ns \<and> (\<forall>n \<in> set ns. length (df c) \<le> n)"
  using assms
proof (induction e q c w rule: crawl_loop.induct)
  case (1 e q c w)
  show ?case
  proof (cases "40 < page_number c")
    case True
    then show ?thesis by (simp add: crawl_loop_stop)
  next
    case False
    show ?thesis
    proof (cases "iteration e q c w")
      case (Raised err w')
      with False iteration_Raised [OF Raised] show ?thesis by (simp add: crawl_loop_step)
    next
      case (Broke d w')
      from iteration_Broke [OF Broke] merged_grows [OF "1.prems"]
      have "found_sizes (stdout w') = found_sizes (stdout w) @ [length d]"
        "length (df c) \<le> length d"
        by auto
      with False Broke show ?thesis by (simp add: crawl_loop_step)
    next
      case (Continued c' w')
      note it = iteration_Continued [OF Continued]
      from it merged_grows [OF "1.prems"]
      have s: "found_sizes (stdout w') = found_sizes (stdout w) @ [length (df c')]"
        and le: "length (df c) \<le> length (df c')"
        by auto
      from it have "distinct (map vin (df c'))" by (simp add: drop_duplicates_distinct)
      from "1.IH" [OF False Continued this] obtain ns where
        ns: "found_sizes (stdout (snd (crawl_loop e q c' w'))) = found_sizes (stdout w') @ ns"
          "sorted ns" "\<forall>n \<in> set ns. length (df c') \<le> n"
        by blast
      have "found_sizes (stdout (snd (crawl_loop e q c w)))
            = found_sizes (stdout w) @ (length (df c') # ns)"
        using False Continued ns(1) s by (simp add: crawl_loop_step)
      moreover have "sorted (length (df c') # ns)" using ns(2,3) by simp
      moreover have "\<forall>n \<in> set (length (df c') # ns). length (df c) \<le> n"
        using ns(3) le by auto
      ultimately show ?thesis by blast
    qed
  qed
qed

lemma crawl_loop_result:
  assumes "distinct (map vin (df c))" "fst (crawl_loop e q c w) = Inr d"
  shows "prefix (df c) d \<and> distinct (map vin d)"
  using assms
proof (induction e q c w rule: crawl_loop.induct)
  case (1 e q c w)
  show ?case
  proof (cases "40 < page_number c")
    case True
    with "1.prems" show ?thesis by (simp add: crawl_loop_stop)
  next
    case False
    show ?thesis
    proof (cases "iteration e q c w")
      case (Raised err w')
      with False "1.prems" show ?thesis by (simp add: crawl_loop_step)
    next
      case (Broke d' w')
      from iteration_Broke [OF Broke]
      have "d' = drop_duplicates (df c @ page_rows (requests_post e (length (posts w))))"
        by simp
      moreover from "1.prems"(2) False Broke have "d = d'"
        by (simp add: crawl_loop_step)
      ultimately show ?thesis
        using merged_grows [OF "1.prems"(1)] by (simp add: drop_duplicates_distinct)
    next
      case (Continued c' w')
      note it = iteration_Continued [OF Continued]
      from it have d: "distinct (map vin (df c'))" by (simp add: drop_duplicates_distinct)
      from it merged_grows [OF "1.prems"(1)] have p: "prefix (df c) (df c')" by simp
      from "1.prems"(2) False Continued have "fst (crawl_loop e q c' w') = Inr d"
        by (simp add: crawl_loop_step)
      from "1.IH" [OF False Continued d this] p show ?thesis
        by (auto intro: prefix_order.trans)
    qed
  qed
qed

lemma crawl_loop_stops_at:
  assumes "deduplicated c"
    and "vin ` set (page_rows (requests_post e (length (posts w) + j)))
         \<subseteq> vin ` set (df c)
           \<union> (\<Union>i<j. vin ` set (page_rows (requests_post e (length (posts w) + i))))"
  shows "length (posts (snd (crawl_loop e q c w))) \<le> Suc (length (posts w) + j)"
  using assms
proof (induction e q c w arbitrary: j rule: crawl_loop.induct)
  case (1 e q c w)
  from "1.prems"(1) have dist: "distinct (map vin (df c))"
    and lrc: "last_run_counter c = length (df c)"
    by (simp_all add: deduplicated_def)
  show ?case
  proof (cases "40 < page_number c")
    case True
    then show ?thesis by (simp add: crawl_loop_stop)
  next
    case False
    show ?thesis
    proof (cases "iteration e q c w")
      case (Raised err w')
      from iteration_Raised [OF Raised] have "length (posts w') \<le> Suc (length (posts w))"
        by auto
      with False Raised show ?thesis by (simp add: crawl_loop_step)
    next
      case (Broke d w')
      from iteration_Broke [OF Broke] have "length (posts w') = Suc (length (posts w))"
        by auto
      with False Broke show ?thesis by (simp add: crawl_loop_step)
    next
      case (Continued c' w')
      note it = iteration_Continued [OF Continued]
      from it have len: "length (posts w') = Suc (length (posts w))" by simp
      from it have ded: "deduplicated c'"
        by (simp add: deduplicated_def drop_duplicates_distinct)
      from it have vins: "vin ` set (df c')
          = vin ` set (df c) \<union> vin ` set (page_rows (requests_post e (length (posts w))))"
        by (simp add: drop_duplicates_vins image_Un)
      show ?thesis
      proof (cases j)
        case 0
        with "1.prems"(2) dist
        have "drop_duplicates (df c @ page_rows (requests_post e (length (posts w)))) = df c"
          by (simp add: merged_same)
        with it lrc have False by auto
        then show ?thesis ..
      next
        case (Suc j')
        have "(\<Union>i<Suc j'. vin ` set (page_rows (requests_post e (length (posts w) + i))))
              = vin ` set (page_rows (requests_post e (length (posts w))))
                \<union> (\<Union>i<j'. vin ` set (page_rows (requests_post e (length (posts w') + i))))"
          unfolding len by (induction j') (auto simp: lessThan_Suc)
        with "1.prems"(2) Suc vins len
        have "vin ` set (page_rows (requests_post e (length (posts w') + j')))
              \<subseteq> vin ` set (df c')
                \<union> (\<Union>i<j'. vin ` set (page_rows (requests_post e (length (posts w') + i))))"
          by (simp add: Un_assoc)
        from "1.IH" [OF False Continued ded this] False Continued Suc len show ?thesis
          by (simp add: crawl_loop_step)
      qed
    qed
  qed
qed

lemma UN_shift:
  "(\<Union>i<Suc j. f (n + i)) = f n \<union> (\<Union>i<j. f (Suc n + i))"
  by (induction j) (auto simp: lessThan_Suc)

lemma page_rows_Raises: "page_rows Raises = []"
  by (simp add: page_rows_def)

lemma crawl_loop_growing:
  assumes "deduplicated c" "page_number c \<le> 41" "\<forall>k. WAFBypass_run e k \<noteq> None"
    and "\<forall>k < 41 - page_number c.
           \<not> vin ` set (page_rows (requests_post e (length (posts w) + k)))
             \<subseteq> vin ` set (df c)
               \<union> (\<Union>i<k. vin ` set (page_rows (requests_post e (length (posts w) + i))))"
  shows "\<exists>d. fst (crawl_loop e q c w) = Inr d
           \<and> vin ` set d = vin ` set (df c)
               \<union> (\<Union>i<41 - page_number c.
                     vin ` set (page_rows (requests_post e (length (posts w) + i))))
           \<and> length (posts (snd (crawl_loop e q c w)))
               = length (posts w) + (41 - page_number c)"
  using assms
proof (induction e q c w rule: crawl_loop.induct)
  case (1 e q c w)
  from "1.prems"(1) have dist: "distinct (map vin (df c))"
    and lrc: "last_run_counter c = length (df c)"
    by (simp_all add: deduplicated_def)
  let ?f = "\<lambda>k. vin ` set (page_rows (requests_post e k))"
  show ?case
  proof (cases "40 < page_number c")
    case True
    with "1.prems"(2) have "41 - page_number c = 0" by simp
    with True show ?thesis by (simp add: crawl_loop_stop)
  next
    case False
    then obtain m where m: "41 - page_number c = Suc m" "40 - page_number c = m"
      by (cases "41 - page_number c") auto
    from "1.prems"(4) [rule_format, of 0] m
    have new0: "\<not> ?f (length (posts w)) \<subseteq> vin ` set (df c)"
      by simp
    then have nr: "requests_post e (length (posts w)) \<noteq> Raises"
      by (auto simp: page_rows_Raises)
    show ?thesis
    proof (cases "iteration e q c w")
      case (Raised err w')
      with iteration_Raised [OF Raised] nr "1.prems"(3) have False by auto
      then show ?thesis ..
    next
      case (Broke d w')
      from iteration_Broke [OF Broke] lrc merged_longer [OF dist new0] have False by auto
      then show ?thesis ..
    next
      case (Continued c' w')
      note it = iteration_Continued [OF Continued]
      from it have len: "length (posts w') = Suc (length (posts w))" by simp
      from it have ded: "deduplicated c'"
        by (simp add: deduplicated_def drop_duplicates_distinct)
      from it have pn: "page_number c' = Suc (page_number c)" by simp
      from it have vins: "vin ` set (df c') = vin ` set (df c) \<union> ?f (length (posts w))"
        by (simp add: drop_duplicates_vins image_Un)
      have le: "page_number c' \<le> 41" using False pn by simp
      have m': "41 - page_number c' = m" using m pn by simp
      have "\<forall>k < 41 - page_number c'.
              \<not> ?f (length (posts w') + k)
                \<subseteq> vin ` set (df c') \<union> (\<Union>i<k. ?f (length (posts w') + i))"
      proof (intro allI impI)
        fix k assume "k < 41 - page_number c'"
        with m m' have "Suc k < 41 - page_number c" by simp
        with "1.prems"(4)
        have "\<not> ?f (length (posts w) + Suc k)
               \<subseteq> vin ` set (df c) \<union> (\<Union>i<Suc k. ?f (length (posts w) + i))"
          by blast
        then show "\<not> ?f (length (posts w') + k)
                \<subseteq> vin ` set (df c') \<union> (\<Union>i<k. ?f (length (posts w') + i))"
          unfolding UN_shift [of "?f" "length (posts w)" k] vins len by (simp add: Un_assoc)
      qed
      from "1.IH" [OF False Continued ded le "1.prems"(3) this] obtain d where
        d: "fst (crawl_loop e q c' w') = Inr d"
          "vin ` set d = vin ` set (df c') \<union> (\<Union>i<m. ?f (length (posts w') + i))"
          "length (posts (snd (crawl_loop e q c' w'))) = length (posts w') + m"
        unfolding m' by blast
      have "vin ` set d = vin ` set (df c) \<union> (\<Union>i<Suc m. ?f (length (posts w) + i))"
        unfolding UN_shift [of "?f" "length (posts w)" m] d(2) vins len
        by (simp add: Un_assoc)
      with d(1,3) False Continued len m show ?thesis
        by (simp add: crawl_loop_step)
    qed
  qed
qed

lemma crawl_loop_raises_at:
  assumes "requests_post e (length (posts w) + j) = Raises"
  shows "length (posts (snd (crawl_loop e q c w))) \<le> Suc (length (posts w) + j)
         \<and> (length (posts (snd (crawl_loop e q c w))) = Suc (length (posts w) + j)
              \<longrightarrow> fst (crawl_loop e q c w) = Inl RequestException)"
  using assms
proof (induction e q c w arbitrary: j rule: crawl_loop.induct)
  case (1 e q c w)
  show ?case
  proof (cases "40 < page_number c")
    case True
    then show ?thesis by (simp add: crawl_loop_stop)
  next
    case False
    show ?thesis
    proof (cases "iteration e q c w")
      case (Raised err w')
      from iteration_Raised [OF Raised]
      consider "posts w' = posts w"
        | "err = RequestException" "length (posts w') = Suc (length (posts w))"
        by auto
      then show ?thesis
      proof cases
        case 1
        with False Raised show ?thesis by (simp add: crawl_loop_step)
      next
        case 2
        with False Raised show ?thesis by (simp add: crawl_loop_step)
      qed
    next
      case (Broke d w')
      from iteration_Broke [OF Broke]
      have "length (posts w') = Suc (length (posts w))"
        "requests_post e (length (posts w)) \<noteq> Raises"
        by auto
      with False Broke "1.prems" show ?thesis
        by (cases j) (auto simp: crawl_loop_step)
    next
      case (Continued c' w')
      from iteration_Continued [OF Continued]
      have len: "length (posts w') = Suc (length (posts w))"
        and nr: "requests_post e (length (posts w)) \<noteq> Raises"
        by auto
      from nr "1.prems" obtain j' where j: "j = Suc j'" by (cases j) auto
      with "1.prems" len have "requests_post e (length (posts w') + j') = Raises" by simp
      from "1.IH" [OF False Continued this] False Continued len j show ?thesis
        by (simp add: crawl_loop_step)
    qed
  qed
qed

lemma get_vehicles_query_world:
  assumes "get_vehicles_query e w = (r, w1)"
  shows "posts w1 = posts w \<and> stdout w1 = stdout w \<and> waf_calls w1 = waf_calls w
         \<and> timer_calls w1 = timer_calls w \<and> uuid_calls w1 \<le> Suc (uuid_calls w)
         \<and> (case r of Inl err \<Rightarrow> w1 = w | Inr q \<Rightarrow> query_cache w1 = Some q)"
  using assms
  by (auto simp: get_vehicles_query_def Let_def split: option.splits)

lemma get_all_pages_cases:
  obtains (raised) err w' where
      "get_all_pages e w = (Inl err, w')" "posts w' = posts w"
      "found_sizes (stdout w') = found_sizes (stdout w)"
      "fst (get_vehicles_query e w) = Inl err \<or> WAFBypass_run e (waf_calls w) = None"
  | (crawl) q w1 h w0 where
      "get_vehicles_query e w = (Inr q, w1)" "WAFBypass_run e (waf_calls w) = Some h"
      "posts w0 = posts w" "found_sizes (stdout w0) = found_sizes (stdout w)"
      "query_cache w0 = Some q" "uuid_calls w0 = uuid_calls w1"
      "get_all_pages e w =
         crawl_loop e q
           \<lparr>df = [], page_number = 1, headers = h,
            timer_start = timer e (timer_calls w), last_run_counter = 0\<rparr> w0"
proof (cases "get_vehicles_query e w")
  case (Pair r w1)
  note gw = get_vehicles_query_world [OF Pair]
  show ?thesis
  proof (cases r)
    case (Inl err)
    with Pair gw have "get_all_pages e w = (Inl err, w)" by (simp add: get_all_pages_def)
    with Pair Inl show ?thesis by (auto intro: raised)
  next
    case (Inr q)
    show ?thesis
    proof (cases "WAFBypass_run e (waf_calls w)")
      case None
      let ?w' = "w1\<lparr>stdout := stdout w1 @ [Bypassing_WAF], waf_calls := Suc (waf_calls w1)\<rparr>"
      from None Pair Inr gw have "get_all_pages e w = (Inl WAFBypassError, ?w')"
        by (simp add: get_all_pages_def Let_def)
      moreover from gw have "posts ?w' = posts w"
        "found_sizes (stdout ?w') = found_sizes (stdout w)"
        by (simp_all add: found_sizes_append found_sizes_simps)
      ultimately show ?thesis using None
        by (intro raised [of WAFBypassError ?w']) simp_all
    next
      case (Some h)
      let ?w0 = "w1\<lparr>stdout := stdout w1 @ [Bypassing_WAF], waf_calls := Suc (waf_calls w1),
                     timer_calls := Suc (timer_calls w1)\<rparr>"
      from Some Pair Inr gw have "get_all_pages e w =
         crawl_loop e q
           \<lparr>df = [], page_number = 1, headers = h,
            timer_start = timer e (timer_calls w), last_run_counter = 0\<rparr> ?w0"
        by (simp add: get_all_pages_def Let_def)
      moreover from gw Inr have "posts ?w0 = posts w"
        "found_sizes (stdout ?w0) = found_sizes (stdout w)"
        "query_cache ?w0 = Some q" "uuid_calls ?w0 = uuid_calls w1"
        by (simp_all add: found_sizes_append found_sizes_simps)
      ultimately show ?thesis using Pair Inr Some by (intro crawl [of q w1 h ?w0]) simp_all
    qed
  qed
qed

lemma query_toyota_None:
  "fst (query_toyota e p q h w) = Inr None \<longleftrightarrow> returns_None (requests_post e (length (posts w)))"
  by (auto simp: query_toyota_def Let_def returns_None_def
      split: response.splits option.splits locate.splits)

lemma returns_None_rows: "returns_None r \<Longrightarrow> page_rows r = [] \<and> r \<noteq> Raises"
  by (auto simp: returns_None_def page_rows_def)

lemma iteration_converges:
  assumes "fst (refresh e c w) = Inr c1"
    and "requests_post e (length (posts w)) \<noteq> Raises"
    and "length (drop_duplicates (df c @ page_rows (requests_post e (length (posts w)))))
         = last_run_counter c"
  shows "\<exists>w'. iteration e q c w
           = Broke (drop_duplicates (df c @ page_rows (requests_post e (length (posts w))))) w'
         \<and> posts w' = posts w @ [(str_replace q ''PAGENUMBER'' (str (page_number c)), headers c1)]"
proof (cases "iteration e q c w")
  case (Raised err w')
  from iteration_Raised [OF Raised] assms(1,2) have False by auto
  then show ?thesis ..
next
  case (Broke d w')
  from iteration_Broke [OF Broke] assms(1) Broke show ?thesis by auto
next
  case (Continued c' w')
  from iteration_Continued [OF Continued] assms(3) have False by auto
  then show ?thesis ..
qed

lemma iteration_raises:
  assumes "fst (refresh e c w) = Inr c1"
    and "requests_post e (length (posts w)) = Raises"
  shows "\<exists>w'. iteration e q c w = Raised RequestException w'
         \<and> posts w' = posts w @ [(str_replace q ''PAGENUMBER'' (str (page_number c)), headers c1)]"
proof (cases "iteration e q c w")
  case (Raised err w')
  from iteration_Raised [OF Raised] assms(1) Raised show ?thesis by auto
next
  case (Broke d w')
  from iteration_Broke [OF Broke] assms(2) have False by auto
  then show ?thesis ..
next
  case (Continued c' w')
  from iteration_Continued [OF Continued] assms(2) have False by auto
  then show ?thesis ..
qed

lemma get_all_pages_stops_at:
  assumes "page_vins e (length (posts w) + j) \<subseteq> (\<Union>i<j. page_vins e (length (posts w) + i))"
  shows "length (posts (snd (get_all_pages e w))) \<le> Suc (length (posts w) + j)"
proof (cases e w rule: get_all_pages_cases)
  case (raised err w')
  then show ?thesis by simp
next
  case (crawl q w1 h w0)
  let ?c = "\<lparr>df = [], page_number = 1, headers = h,
            timer_start = timer e (timer_calls w), last_run_counter = 0\<rparr>"
  have "deduplicated ?c" by (simp add: deduplicated_def)
  moreover from assms crawl(3)
  have "vin ` set (page_rows (requests_post e (length (posts w0) + j)))
         \<subseteq> vin ` set (df ?c)
           \<union> (\<Union>i<j. vin ` set (page_rows (requests_post e (length (posts w0) + i))))"
    by (simp add: page_vins_def)
  ultimately have "length (posts (snd (crawl_loop e q ?c w0))) \<le> Suc (length (posts w0) + j)"
    by (rule crawl_loop_stops_at)
  with crawl show ?thesis by simp
qed

text \<open>The equations that evaluate the example runs.\<close>

lemmas run_simps = get_all_pages_def get_vehicles_query_def example_env_def fresh_world_def
  crawl_loop.simps iteration_def refresh_def query_toyota_def Let_def drop_duplicates_def
  car_def page_def str.simps midway_def midway_world_def page_rows_def page_vins_def
  round_to_double_def bit_length.simps

section \<open>The crawl: properties\<close>

text \<open>
  C1. In an iteration of the loop (page at most 40, no failed browser run, no exception
  of the request) in which the merged and deduplicated frame has as many rows as
  \<open>last_run_counter\<close>, the loop ends there and returns that frame, after this one
  request. At the head of an iteration (no \<open>vin\<close> twice, \<open>last_run_counter\<close> the
  length of the frame) this is the case whenever the page lists only known \<open>vin\<close>s,
  and the frame returned is the one accumulated before. For a whole crawl: when the
  responses to two successive requests list the same \<open>vin\<close>s, or the second lists
  none, the crawl makes no request after the second.
\<close>

theorem convergence_ends_crawl:
  "(page_number c \<le> 40 \<and> fst (refresh e c w) = Inr c1
      \<and> requests_post e (length (posts w)) \<noteq> Raises
      \<and> length (drop_duplicates (df c @ page_rows (requests_post e (length (posts w)))))
          = last_run_counter c
    \<longrightarrow> fst (crawl_loop e q c w)
          = Inr (drop_duplicates (df c @ page_rows (requests_post e (length (posts w)))))
        \<and> length (posts (snd (crawl_loop e q c w))) = Suc (length (posts w)))
   \<and> (deduplicated c \<and> page_number c \<le> 40 \<and> fst (refresh e c w) = Inr c1
      \<and> requests_post e (length (posts w)) \<noteq> Raises
      \<and> page_vins e (length (posts w)) \<subseteq> vin ` set (df c)
    \<longrightarrow> fst (crawl_loop e q c w) = Inr (df c))
   \<and> (page_vins e (length (posts w0) + Suc k) = page_vins e (length (posts w0) + k)
       \<or> page_vins e (length (posts w0) + Suc k) = {}
    \<longrightarrow> length (posts (snd (get_all_pages e w0))) \<le> length (posts w0) + k + 2)"
proof (intro conjI impI)
  assume a: "page_number c \<le> 40 \<and> fst (refresh e c w) = Inr c1
      \<and> requests_post e (length (posts w)) \<noteq> Raises
      \<and> length (drop_duplicates (df c @ page_rows (requests_post e (length (posts w)))))
          = last_run_counter c"
  then obtain w' where "iteration e q c w
      = Broke (drop_duplicates (df c @ page_rows (requests_post e (length (posts w))))) w'"
    "posts w' = posts w @ [(str_replace q ''PAGENUMBER'' (str (page_number c)), headers c1)]"
    using iteration_converges [of e c w c1 q] by blast
  with a show "fst (crawl_loop e q c w)
          = Inr (drop_duplicates (df c @ page_rows (requests_post e (length (posts w)))))"
    "length (posts (snd (crawl_loop e q c w))) = Suc (length (posts w))"
    by (simp_all add: crawl_loop_step)
next
  assume a: "deduplicated c \<and> page_number c \<le> 40 \<and> fst (refresh e c w) = Inr c1
      \<and> requests_post e (length (posts w)) \<noteq> Raises
      \<and> page_vins e (length (posts w)) \<subseteq> vin ` set (df c)"
  then have same: "drop_duplicates (df c @ page_rows (requests_post e (length (posts w)))) = df c"
    by (simp add: deduplicated_def page_vins_def merged_same)
  with a obtain w' where "iteration e q c w = Broke (df c) w'"
    using iteration_converges [of e c w c1 q] by (auto simp: deduplicated_def)
  with a show "fst (crawl_loop e q c w) = Inr (df c)"
    by (simp add: crawl_loop_step)
next
  assume "page_vins e (length (posts w0) + Suc k) = page_vins e (length (posts w0) + k)
       \<or> page_vins e (length (posts w0) + Suc k) = {}"
  then have "page_vins e (length (posts w0) + Suc k)
             \<subseteq> (\<Union>i<Suc k. page_vins e (length (posts w0) + i))"
    by auto
  from get_all_pages_stops_at [OF this]
  show "length (posts (snd (get_all_pages e w0))) \<le> length (posts w0) + k + 2"
    by simp
qed

theorem convergence_ends_crawl_witness:
  "page_number midway \<le> 40
   \<and> deduplicated midway
   \<and> fst (refresh (example_env repeating_pages) midway midway_world) = Inr midway
   \<and> requests_post (example_env repeating_pages) (length (posts midway_world)) \<noteq> Raises
   \<and> page_vins (example_env repeating_pages) (length (posts midway_world))
       \<subseteq> vin ` set (df midway)
   \<and> fst (crawl_loop (example_env repeating_pages) ''page PAGENUMBER'' midway midway_world)
       = Inr [car ''VIN-A'' ''41000'', car ''VIN-B'' ''42000'']
   \<and> length (posts (snd (crawl_loop (example_env repeating_pages) ''page PAGENUMBER''
                           midway midway_world))) = 2
   \<and> page_vins (example_env repeating_pages) (length (posts fresh_world) + Suc 0)
       = page_vins (example_env repeating_pages) (length (posts fresh_world) + 0)
   \<and> length (posts (snd (get_all_pages (example_env repeating_pages) fresh_world))) \<le> 2"
proof -
  have h: "page_number midway \<le> 40"
    "deduplicated midway"
    "fst (refresh (example_env repeating_pages) midway midway_world) = Inr midway"
    "requests_post (example_env repeating_pages) (length (posts midway_world)) \<noteq> Raises"
    "page_vins (example_env repeating_pages) (length (posts midway_world))
       \<subseteq> vin ` set (df midway)"
    "length (drop_duplicates (df midway
        @ page_rows (requests_post (example_env repeating_pages) (length (posts midway_world)))))
      = last_run_counter midway"
    "page_vins (example_env repeating_pages) (length (posts fresh_world) + Suc 0)
       = page_vins (example_env repeating_pages) (length (posts fresh_world) + 0)"
    by (auto simp: run_simps deduplicated_def repeating_pages_def)
  have r: "drop_duplicates (df midway
        @ page_rows (requests_post (example_env repeating_pages) (length (posts midway_world))))
      = [car ''VIN-A'' ''41000'', car ''VIN-B'' ''42000'']"
    "length (posts midway_world) = 1" "length (posts fresh_world) = 0"
    by (simp_all add: run_simps repeating_pages_def)
  from h r convergence_ends_crawl
    [of midway "example_env repeating_pages" midway_world midway "''page PAGENUMBER''"
        fresh_world 0]
  show ?thesis by simp
qed

text \<open>
  C2, as the code has it. A page on which \<open>query_toyota\<close> returns \<open>None\<close> (blocked, empty
  or malformed response) raises nothing and adds no row; the test for no new vehicles
  then ends the loop at this page: the crawl returns the frame accumulated from the
  pages before it and requests no later page.
\<close>

theorem blocked_page_ends_crawl:
  "(deduplicated c \<and> page_number c \<le> 40 \<and> fst (refresh e c w) = Inr c1
      \<and> returns_None (requests_post e (length (posts w)))
    \<longrightarrow> fst (crawl_loop e q c w) = Inr (df c)
        \<and> posts (snd (crawl_loop e q c w))
            = posts w @ [(str_replace q ''PAGENUMBER'' (str (page_number c)), headers c1)])
   \<and> (returns_None (requests_post e (length (posts w0) + k))
    \<longrightarrow> length (posts (snd (get_all_pages e w0))) \<le> Suc (length (posts w0) + k))"
proof (intro conjI impI)
  assume a: "deduplicated c \<and> page_number c \<le> 40 \<and> fst (refresh e c w) = Inr c1
      \<and> returns_None (requests_post e (length (posts w)))"
  then have rows: "page_rows (requests_post e (length (posts w))) = []"
    and nr: "requests_post e (length (posts w)) \<noteq> Raises"
    by (simp_all add: returns_None_rows)
  from a have "drop_duplicates (df c) = df c" "length (df c) = last_run_counter c"
    using merged_same [of "df c" "[]"] by (simp_all add: deduplicated_def)
  with a rows nr obtain w' where "iteration e q c w = Broke (df c) w'"
    "posts w' = posts w @ [(str_replace q ''PAGENUMBER'' (str (page_number c)), headers c1)]"
    using iteration_converges [of e c w c1 q] by auto
  with a show "fst (crawl_loop e q c w) = Inr (df c)"
    "posts (snd (crawl_loop e q c w))
      = posts w @ [(str_replace q ''PAGENUMBER'' (str (page_number c)), headers c1)]"
    by (simp_all add: crawl_loop_step)
next
  assume "returns_None (requests_post e (length (posts w0) + k))"
  then have "page_vins e (length (posts w0) + k) = {}"
    by (simp add: page_vins_def returns_None_rows)
  then have "page_vins e (length (posts w0) + k) \<subseteq> (\<Union>i<k. page_vins e (length (posts w0) + i))"
    by simp
  then show "length (posts (snd (get_all_pages e w0))) \<le> Suc (length (posts w0) + k)"
    by (rule get_all_pages_stops_at)
qed

theorem blocked_page_ends_crawl_witness:
  "deduplicated midway \<and> page_number midway \<le> 40
   \<and> fst (refresh (example_env blocked_pages) midway midway_world) = Inr midway
   \<and> returns_None (requests_post (example_env blocked_pages) (length (posts midway_world)))
   \<and> fst (crawl_loop (example_env blocked_pages) ''page PAGENUMBER'' midway midway_world)
       = Inr (df midway)
   \<and> posts (snd (crawl_loop (example_env blocked_pages) ''page PAGENUMBER'' midway midway_world))
       = [(''page 1'', [(''x-aws-waf-token'', ''0'')]),
          (''page 2'', [(''x-aws-waf-token'', ''0'')])]
   \<and> returns_None (requests_post (example_env blocked_pages) (length (posts fresh_world) + 1))
   \<and> length (posts (snd (get_all_pages (example_env blocked_pages) fresh_world))) \<le> 2"
proof -
  have h: "deduplicated midway \<and> page_number midway \<le> 40
      \<and> fst (refresh (example_env blocked_pages) midway midway_world) = Inr midway
      \<and> returns_None (requests_post (example_env blocked_pages) (length (posts midway_world)))"
    "returns_None (requests_post (example_env blocked_pages) (length (posts fresh_world) + 1))"
    by (simp_all add: run_simps deduplicated_def blocked_pages_def returns_None_def)
  have r: "posts midway_world @ [(str_replace ''page PAGENUMBER'' ''PAGENUMBER''
              (str (page_number midway)), headers midway)]
      = [(''page 1'', [(''x-aws-waf-token'', ''0'')]),
         (''page 2'', [(''x-aws-waf-token'', ''0'')])]"
    "Suc (length (posts fresh_world) + 1) = 2"
    by (simp_all add: run_simps)
  from h r blocked_page_ends_crawl
    [of midway "example_env blocked_pages" midway_world midway "''page PAGENUMBER''"
        fresh_world 1]
  show ?thesis by simp
qed

text \<open>
  C2, as the claim has it, fails: page 1 lists one vehicle, page 2 is blocked, page 3
  would list another vehicle; the crawl returns the vehicle of page 1 alone and makes
  two requests, so page 3 is never fetched.
\<close>

theorem blocked_page_resilience_counterexample:
  "blocked_pages 1 = Body None
   \<and> blocked_pages 2 = page [car ''VIN-B'' ''42000'']
   \<and> fst (get_all_pages (example_env blocked_pages) fresh_world) = Inr [car ''VIN-A'' ''41000'']
   \<and> length (posts (snd (get_all_pages (example_env blocked_pages) fresh_world))) = 2"
  by (simp add: run_simps blocked_pages_def)

lemma get_all_pages_raises_at:
  assumes "requests_post e (length (posts w) + j) = Raises"
  shows "length (posts (snd (get_all_pages e w))) \<le> Suc (length (posts w) + j)
         \<and> (length (posts (snd (get_all_pages e w))) = Suc (length (posts w) + j)
              \<longrightarrow> fst (get_all_pages e w) = Inl RequestException)"
proof (cases e w rule: get_all_pages_cases)
  case (raised err w')
  then show ?thesis by simp
next
  case (crawl q w1 h w0)
  from assms crawl(3) have "requests_post e (length (posts w0) + j) = Raises" by simp
  from crawl_loop_raises_at [OF this] crawl show ?thesis by simp
qed

text \<open>
  C3, as the code has it. A request that raises (connection error, timeout) is not
  tried again: the exception leaves \<open>query_toyota\<close> and \<open>get_all_pages\<close>, and
  the request that raised is the last one the crawl makes.
\<close>

theorem request_exception_propagates:
  "(page_number c \<le> 40 \<and> fst (refresh e c w) = Inr c1
      \<and> requests_post e (length (posts w)) = Raises
    \<longrightarrow> fst (crawl_loop e q c w) = Inl RequestException
        \<and> posts (snd (crawl_loop e q c w))
            = posts w @ [(str_replace q ''PAGENUMBER'' (str (page_number c)), headers c1)])
   \<and> (requests_post e (length (posts w0) + k) = Raises
    \<longrightarrow> length (posts (snd (get_all_pages e w0))) \<le> Suc (length (posts w0) + k)
        \<and> (length (posts (snd (get_all_pages e w0))) = Suc (length (posts w0) + k)
             \<longrightarrow> fst (get_all_pages e w0) = Inl RequestException))"
proof (intro conjI impI)
  assume a: "page_number c \<le> 40 \<and> fst (refresh e c w) = Inr c1
      \<and> requests_post e (length (posts w)) = Raises"
  then obtain w' where "iteration e q c w = Raised RequestException w'"
    "posts w' = posts w @ [(str_replace q ''PAGENUMBER'' (str (page_number c)), headers c1)]"
    using iteration_raises [of e c w c1 q] by blast
  with a show "fst (crawl_loop e q c w) = Inl RequestException"
    "posts (snd (crawl_loop e q c w))
      = posts w @ [(str_replace q ''PAGENUMBER'' (str (page_number c)), headers c1)]"
    by (simp_all add: crawl_loop_step)
next
  assume a: "requests_post e (length (posts w0) + k) = Raises"
  from get_all_pages_raises_at [OF a]
  show "length (posts (snd (get_all_pages e w0))) \<le> Suc (length (posts w0) + k)" ..
  assume "length (posts (snd (get_all_pages e w0))) = Suc (length (posts w0) + k)"
  with get_all_pages_raises_at [OF a]
  show "fst (get_all_pages e w0) = Inl RequestException" by simp
qed

theorem request_exception_propagates_witness:
  "page_number midway \<le> 40
   \<and> fst (refresh (example_env timeout_pages) midway midway_world) = Inr midway
   \<and> requests_post (example_env timeout_pages) (length (posts midway_world)) = Raises
   \<and> fst (crawl_loop (example_env timeout_pages) ''page PAGENUMBER'' midway midway_world)
       = Inl RequestException
   \<and> posts (snd (crawl_loop (example_env timeout_pages) ''page PAGENUMBER'' midway midway_world))
       = [(''page 1'', [(''x-aws-waf-token'', ''0'')]),
          (''page 2'', [(''x-aws-waf-token'', ''0'')])]
   \<and> requests_post (example_env timeout_pages) (length (posts fresh_world) + 1) = Raises
   \<and> length (posts (snd (get_all_pages (example_env timeout_pages) fresh_world))) = 2
   \<and> fst (get_all_pages (example_env timeout_pages) fresh_world) = Inl RequestException"
proof -
  have h: "page_number midway \<le> 40
      \<and> fst (refresh (example_env timeout_pages) midway midway_world) = Inr midway
      \<and> requests_post (example_env timeout_pages) (length (posts midway_world)) = Raises"
    "requests_post (example_env timeout_pages) (length (posts fresh_world) + 1) = Raises"
    "length (posts (snd (get_all_pages (example_env timeout_pages) fresh_world)))
      = Suc (length (posts fresh_world) + 1)"
    by (simp_all add: run_simps timeout_pages_def)
  have r: "posts midway_world @ [(str_replace ''page PAGENUMBER'' ''PAGENUMBER''
              (str (page_number midway)), headers midway)]
      = [(''page 1'', [(''x-aws-waf-token'', ''0'')]),
         (''page 2'', [(''x-aws-waf-token'', ''0'')])]"
    "Suc (length (posts fresh_world) + 1) = 2"
    by (simp_all add: run_simps)
  from h r request_exception_propagates
    [of midway "example_env timeout_pages" midway_world midway "''page PAGENUMBER''"
        fresh_world 1]
  show ?thesis by simp
qed

text \<open>
  C3, as the claim has it, fails: page 1 lists one vehicle and the request for page 2
  times out; the crawl ends in the exception after two requests, so the page was not
  requested again and the failure was not turned into an empty page.
\<close>

theorem capped_retry_counterexample:
  "timeout_pages 1 = Raises
   \<and> fst (get_all_pages (example_env timeout_pages) fresh_world) = Inl RequestException
   \<and> length (posts (snd (get_all_pages (example_env timeout_pages) fresh_world))) = 2"
  by (simp add: run_simps timeout_pages_def)

text \<open>
  The elapsed time is the rounded float difference: with \<open>timer_start\<close> at 0.3 and a
  reading of 240.3 the exact difference is above 240, the float difference is 240.0,
  and there is no renewal.
\<close>

lemma elapsed_time_is_rounded:
  "float_sub (Double 8454804612946330 (- 45)) (Double 5404319552844595 (- 54))
     = Double 8444249301319680 (- 45)
   \<and> refresh edge_env (midway\<lparr>timer_start := Double 5404319552844595 (- 54)\<rparr>) midway_world
     = (Inr (midway\<lparr>timer_start := Double 5404319552844595 (- 54)\<rparr>),
        midway_world\<lparr>timer_calls := 3\<rparr>)"
  by (simp add: run_simps edge_env_def)

text \<open>
  C4. When the elapsed time the code computes, the float \<open>timer() - timer_start\<close>, is
  greater than \<open>4 * 60\<close> seconds (less than the five minutes of validity) and the browser
  run succeeds, the renewal replaces \<open>headers\<close> by the new ones and \<open>timer_start\<close> by a
  new reading of the clock, and changes no other variable of the loop: \<open>page_number\<close>,
  the frame and \<open>last_run_counter\<close> are as before. The request of the same iteration
  is for the same page, with the new headers; when the loop goes on, the page number
  is the next one and the frame accumulated before (no \<open>vin\<close> twice) is a prefix of the
  new frame, as it is of the frame the crawl returns.
\<close>

theorem renewal_keeps_progress:
  assumes "float_gt_int (float_sub (timer e (timer_calls w)) (timer_start c)) (4 * 60)"
    and "WAFBypass_run e (waf_calls w) = Some h"
  shows "refresh e c w =
           (Inr (c\<lparr>headers := h, timer_start := timer e (Suc (timer_calls w))\<rparr>),
            w\<lparr>timer_calls := Suc (Suc (timer_calls w)),
              stdout := stdout w @ [Refreshing_WAF_bypass],
              waf_calls := Suc (waf_calls w)\<rparr>)
         \<and> (\<forall>c' w'. iteration e q c w = Continued c' w' \<longrightarrow>
               page_number c' = Suc (page_number c) \<and> headers c' = h
               \<and> posts w' = posts w @ [(str_replace q ''PAGENUMBER'' (str (page_number c)), h)]
               \<and> (distinct (map vin (df c)) \<longrightarrow> prefix (df c) (df c')))
         \<and> (\<forall>d. distinct (map vin (df c)) \<and> fst (crawl_loop e q c w) = Inr d \<longrightarrow>
               prefix (df c) d)"
proof (intro conjI allI impI)
  show r: "refresh e c w =
           (Inr (c\<lparr>headers := h, timer_start := timer e (Suc (timer_calls w))\<rparr>),
            w\<lparr>timer_calls := Suc (Suc (timer_calls w)),
              stdout := stdout w @ [Refreshing_WAF_bypass],
              waf_calls := Suc (waf_calls w)\<rparr>)"
    using assms by (simp add: refresh_def Let_def)
  {
    fix c' w'
    assume it: "iteration e q c w = Continued c' w'"
    note f = iteration_Continued [OF it]
    from f show "page_number c' = Suc (page_number c)" by simp
    from f r show h': "headers c' = h" by auto
    from f h' show "posts w' = posts w @ [(str_replace q ''PAGENUMBER'' (str (page_number c)), h)]"
      by simp
    assume "distinct (map vin (df c))"
    from merged_grows [OF this] f show "prefix (df c) (df c')" by simp
  }
  fix d
  assume "distinct (map vin (df c)) \<and> fst (crawl_loop e q c w) = Inr d"
  then show "prefix (df c) d" using crawl_loop_result [of c e q w d] by simp
qed

theorem renewal_keeps_progress_witness:
  "float_gt_int (float_sub (timer slow_env (timer_calls midway_world)) (timer_start midway))
     (4 * 60)
   \<and> WAFBypass_run slow_env (waf_calls midway_world) = Some [(''x-aws-waf-token'', ''1'')]
   \<and> fst (refresh slow_env midway midway_world)
       = Inr (midway\<lparr>headers := [(''x-aws-waf-token'', ''1'')], timer_start := Double 450 0\<rparr>)
   \<and> page_number (midway\<lparr>headers := [(''x-aws-waf-token'', ''1'')], timer_start := Double 450 0\<rparr>) = 2
   \<and> df (midway\<lparr>headers := [(''x-aws-waf-token'', ''1'')], timer_start := Double 450 0\<rparr>) = df midway
   \<and> waf_calls (snd (refresh slow_env midway midway_world)) = 2
   \<and> posts (snd (refresh slow_env midway midway_world)) = posts midway_world
   \<and> (\<exists>c' w'. iteration slow_env ''page PAGENUMBER'' midway midway_world = Continued c' w'
         \<and> page_number c' = 3 \<and> headers c' = [(''x-aws-waf-token'', ''1'')]
         \<and> posts w' = [(''page 1'', [(''x-aws-waf-token'', ''0'')]),
                        (''page 2'', [(''x-aws-waf-token'', ''1'')])]
         \<and> prefix (df midway) (df c'))"
proof -
  have h: "float_gt_int
      (float_sub (timer slow_env (timer_calls midway_world)) (timer_start midway)) (4 * 60)"
    "WAFBypass_run slow_env (waf_calls midway_world) = Some [(''x-aws-waf-token'', ''1'')]"
    by (simp_all add: slow_env_def run_simps)
  have r: "timer slow_env (Suc (timer_calls midway_world)) = Double 450 0"
    "Suc (waf_calls midway_world) = 2" "Suc (page_number midway) = 3"
    "distinct (map vin (df midway))"
    "posts midway_world @ [(str_replace ''page PAGENUMBER'' ''PAGENUMBER''
        (str (page_number midway)), [(''x-aws-waf-token'', ''1'')])]
      = [(''page 1'', [(''x-aws-waf-token'', ''0'')]),
         (''page 2'', [(''x-aws-waf-token'', ''1'')])]"
    by (simp_all add: slow_env_def run_simps)
  have "\<exists>c' w'. iteration slow_env ''page PAGENUMBER'' midway midway_world = Continued c' w'"
    by (simp add: slow_env_def run_simps growing_pages_def)
  then obtain c' w' where
    it: "iteration slow_env ''page PAGENUMBER'' midway midway_world = Continued c' w'"
    by blast
  note t = renewal_keeps_progress [OF h, of "''page PAGENUMBER''"]
  from t it r have "page_number c' = 3 \<and> headers c' = [(''x-aws-waf-token'', ''1'')]
         \<and> posts w' = [(''page 1'', [(''x-aws-waf-token'', ''0'')]),
                        (''page 2'', [(''x-aws-waf-token'', ''1'')])]
         \<and> prefix (df midway) (df c')"
    by auto
  with it t h r show ?thesis by simp
qed

lemma get_all_pages_growing:
  assumes "fst (get_vehicles_query e w) = Inr q" "\<forall>k. WAFBypass_run e k \<noteq> None"
    and "always_new e (length (posts w))"
  shows "\<exists>d. fst (get_all_pages e w) = Inr d
           \<and> vin ` set d = (\<Union>i<40. page_vins e (length (posts w) + i))
           \<and> length (posts (snd (get_all_pages e w))) = length (posts w) + 40"
proof (cases e w rule: get_all_pages_cases)
  case (raised err w')
  with assms(1) assms(2) [rule_format, of "waf_calls w"] have False by auto
  then show ?thesis ..
next
  case (crawl q' w1 h w0)
  let ?c = "\<lparr>df = [], page_number = 1, headers = h,
            timer_start = timer e (timer_calls w), last_run_counter = 0\<rparr>"
  have "deduplicated ?c" "page_number ?c \<le> 41" by (simp_all add: deduplicated_def)
  moreover note assms(2)
  moreover from assms(3) crawl(3)
  have "\<forall>k < 41 - page_number ?c.
           \<not> vin ` set (page_rows (requests_post e (length (posts w0) + k)))
             \<subseteq> vin ` set (df ?c)
               \<union> (\<Union>i<k. vin ` set (page_rows (requests_post e (length (posts w0) + i))))"
    by (simp add: always_new_def page_vins_def)
  ultimately obtain d where "fst (crawl_loop e q' ?c w0) = Inr d"
    "vin ` set d = vin ` set (df ?c)
               \<union> (\<Union>i<41 - page_number ?c.
                     vin ` set (page_rows (requests_post e (length (posts w0) + i))))"
    "length (posts (snd (crawl_loop e q' ?c w0))) = length (posts w0) + (41 - page_number ?c)"
    using crawl_loop_growing [of ?c e w0 q'] by blast
  with crawl show ?thesis by (simp add: page_vins_def)
qed

lemma get_all_pages_posts_bound:
  "length (posts (snd (get_all_pages e w))) \<le> length (posts w) + 40"
proof (cases e w rule: get_all_pages_cases)
  case (raised err w')
  then show ?thesis by simp
next
  case (crawl q w1 h w0)
  with crawl_loop_posts_bound [of e q "\<lparr>df = [], page_number = 1, headers = h,
            timer_start = timer e (timer_calls w), last_run_counter = 0\<rparr>" w0]
  show ?thesis by simp
qed

text \<open>
  C5. Whatever the responses are, a crawl makes at most 40 requests (the loop is a total
  function: it always ends). When the loop is entered with a page number above 40 it
  returns the frame as it is, with no further request and no error. In particular,
  when the query can be built, every browser run succeeds and each of the 40 responses
  lists a \<open>vin\<close> not listed before, the crawl makes exactly 40 requests and returns
  normally a frame with the \<open>vin\<close>s of all 40 pages.
\<close>

theorem page_ceiling:
  "length (posts (snd (get_all_pages e w))) \<le> length (posts w) + 40
   \<and> (40 < page_number c \<longrightarrow> crawl_loop e q c w' = (Inr (df c), w'))
   \<and> (fst (get_vehicles_query e w) = Inr q' \<and> (\<forall>k. WAFBypass_run e k \<noteq> None)
        \<and> always_new e (length (posts w))
      \<longrightarrow> (\<exists>d. fst (get_all_pages e w) = Inr d
                \<and> vin ` set d = (\<Union>i<40. page_vins e (length (posts w) + i)))
          \<and> length (posts (snd (get_all_pages e w))) = length (posts w) + 40)"
proof (intro conjI impI)
  show "length (posts (snd (get_all_pages e w))) \<le> length (posts w) + 40"
    by (rule get_all_pages_posts_bound)
next
  assume "40 < page_number c"
  then show "crawl_loop e q c w' = (Inr (df c), w')" by (rule crawl_loop_stop)
next
  assume a: "fst (get_vehicles_query e w) = Inr q' \<and> (\<forall>k. WAFBypass_run e k \<noteq> None)
        \<and> always_new e (length (posts w))"
  with get_all_pages_growing [of e w q']
  show "\<exists>d. fst (get_all_pages e w) = Inr d
                \<and> vin ` set d = (\<Union>i<40. page_vins e (length (posts w) + i))"
    "length (posts (snd (get_all_pages e w))) = length (posts w) + 40"
    by auto
qed

theorem page_ceiling_witness:
  "40 < page_number (midway\<lparr>page_number := 41\<rparr>)
   \<and> crawl_loop (example_env growing_pages) ''page PAGENUMBER''
        (midway\<lparr>page_number := 41\<rparr>) midway_world
       = (Inr [car ''VIN-A'' ''41000'', car ''VIN-B'' ''42000''], midway_world)
   \<and> always_new (example_env growing_pages) (length (posts fresh_world))
   \<and> (\<exists>d. fst (get_all_pages (example_env growing_pages) fresh_world) = Inr d)
   \<and> length (posts (snd (get_all_pages (example_env growing_pages) fresh_world))) = 40"
proof -
  have h1: "40 < page_number (midway\<lparr>page_number := 41\<rparr>)"
    by (simp add: midway_def)
  have h2: "fst (get_vehicles_query (example_env growing_pages) fresh_world)
      = Inr ''zip 90210 model sienna miles 100 page PAGENUMBER lead uuid0''"
    by (simp add: run_simps)
  have h3: "\<forall>k. WAFBypass_run (example_env growing_pages) k \<noteq> None"
    by (simp add: example_env_def)
  have h4: "always_new (example_env growing_pages) (length (posts fresh_world))"
    by (auto simp: always_new_def page_vins_def page_rows_def growing_pages_def page_def
        car_def example_env_def fresh_world_def)
  have r: "df (midway\<lparr>page_number := 41\<rparr>) = [car ''VIN-A'' ''41000'', car ''VIN-B'' ''42000'']"
    "length (posts fresh_world) = 0"
    by (simp_all add: midway_def fresh_world_def)
  from page_ceiling
    [of "example_env growing_pages" fresh_world "midway\<lparr>page_number := 41\<rparr>"
        "''page PAGENUMBER''" midway_world
        "''zip 90210 model sienna miles 100 page PAGENUMBER lead uuid0''"]
    h1 h2 h3 h4 r
  show ?thesis by auto
qed

lemma get_all_pages_sizes:
  "\<exists>ns. found_sizes (stdout (snd (get_all_pages e w))) = found_sizes (stdout w) @ ns
       \<and> sorted ns"
proof (cases e w rule: get_all_pages_cases)
  case (raised err w')
  then show ?thesis by simp
next
  case (crawl q w1 h w0)
  let ?c = "\<lparr>df = [], page_number = 1, headers = h,
            timer_start = timer e (timer_calls w), last_run_counter = 0\<rparr>"
  have "distinct (map vin (df ?c))" by simp
  from crawl_loop_sizes [OF this, of e q w0] crawl show ?thesis by auto
qed

lemma get_all_pages_result:
  assumes "fst (get_all_pages e w) = Inr d"
  shows "distinct (map vin d)"
proof (cases e w rule: get_all_pages_cases)
  case (raised err w')
  with assms show ?thesis by simp
next
  case (crawl q w1 h w0)
  let ?c = "\<lparr>df = [], page_number = 1, headers = h,
            timer_start = timer e (timer_calls w), last_run_counter = 0\<rparr>"
  have "distinct (map vin (df ?c))" by simp
  moreover from assms crawl have "fst (crawl_loop e q ?c w0) = Inr d" by simp
  ultimately show ?thesis using crawl_loop_result [of ?c e q w0 d] by simp
qed

text \<open>
  C6. The accumulated sizes a crawl prints (one \<open>Found ... vehicles so far\<close> line per
  iteration that fetched a page) never decrease. Merging a page into a frame that holds
  no \<open>vin\<close> twice keeps the rows of the frame, in their order, in front of the new
  ones, so its size does not shrink. A crawl entered with such a frame and ended at any
  iteration returns a frame that extends it and holds no \<open>vin\<close> twice, as does the whole
  crawl.
\<close>

theorem accumulated_size_never_shrinks:
  "sorted (drop (length (found_sizes (stdout w)))
             (found_sizes (stdout (snd (get_all_pages e w)))))
   \<and> (distinct (map vin rows) \<longrightarrow>
        length rows \<le> length (drop_duplicates (rows @ new))
        \<and> prefix rows (drop_duplicates (rows @ new)))
   \<and> (distinct (map vin (df c)) \<and> fst (crawl_loop e q c w1) = Inr d \<longrightarrow>
        length (df c) \<le> length d \<and> prefix (df c) d \<and> distinct (map vin d))
   \<and> (fst (get_all_pages e w) = Inr d' \<longrightarrow> distinct (map vin d'))"
proof (intro conjI impI)
  from get_all_pages_sizes [of e w] obtain ns where
    "found_sizes (stdout (snd (get_all_pages e w))) = found_sizes (stdout w) @ ns" "sorted ns"
    by blast
  then show "sorted (drop (length (found_sizes (stdout w)))
             (found_sizes (stdout (snd (get_all_pages e w)))))"
    by simp
next
  assume "distinct (map vin rows)"
  from merged_grows [OF this]
  show "length rows \<le> length (drop_duplicates (rows @ new))"
    "prefix rows (drop_duplicates (rows @ new))"
    by simp_all
next
  assume a: "distinct (map vin (df c)) \<and> fst (crawl_loop e q c w1) = Inr d"
  with crawl_loop_result [of c e q w1 d]
  show p: "prefix (df c) d" and "distinct (map vin d)" by simp_all
  from p show "length (df c) \<le> length d" by (rule prefix_length_le)
next
  assume "fst (get_all_pages e w) = Inr d'"
  then show "distinct (map vin d')" by (rule get_all_pages_result)
qed

theorem accumulated_size_never_shrinks_witness:
  "found_sizes (stdout (snd (get_all_pages (example_env repeating_pages) fresh_world))) = [2, 2]
   \<and> sorted [2, 2 :: nat]
   \<and> distinct (map vin (df midway))
   \<and> fst (crawl_loop (example_env repeating_pages) ''page PAGENUMBER'' midway midway_world)
       = Inr [car ''VIN-A'' ''41000'', car ''VIN-B'' ''42000'']
   \<and> prefix (df midway) [car ''VIN-A'' ''41000'', car ''VIN-B'' ''42000'']
   \<and> fst (get_all_pages (example_env repeating_pages) fresh_world)
       = Inr [car ''VIN-A'' ''41000'', car ''VIN-B'' ''42000'']
   \<and> distinct (map vin [car ''VIN-A'' ''41000'', car ''VIN-B'' ''42000''])
   \<and> length [car ''VIN-A'' ''41000''] \<le> length (drop_duplicates
        ([car ''VIN-A'' ''41000''] @ [car ''VIN-A'' ''39000'', car ''VIN-B'' ''42000'']))"
proof -
  have h: "distinct (map vin (df midway))"
    "fst (crawl_loop (example_env repeating_pages) ''page PAGENUMBER'' midway midway_world)
       = Inr [car ''VIN-A'' ''41000'', car ''VIN-B'' ''42000'']"
    "fst (get_all_pages (example_env repeating_pages) fresh_world)
       = Inr [car ''VIN-A'' ''41000'', car ''VIN-B'' ''42000'']"
    "distinct (map vin [car ''VIN-A'' ''41000''])"
    "found_sizes (stdout (snd (get_all_pages (example_env repeating_pages) fresh_world))) = [2, 2]"
    "found_sizes (stdout fresh_world) = []"
    by (simp_all add: run_simps blocked_pages_def repeating_pages_def found_sizes_simps)
  from h accumulated_size_never_shrinks
    [of fresh_world "example_env repeating_pages" "[car ''VIN-A'' ''41000'']"
        "[car ''VIN-A'' ''39000'', car ''VIN-B'' ''42000'']" midway
        "''page PAGENUMBER''" midway_world "[car ''VIN-A'' ''41000'', car ''VIN-B'' ''42000'']"
        "[car ''VIN-A'' ''41000'', car ''VIN-B'' ''42000'']"]
  show ?thesis by simp
qed

lemma get_vehicles_query_cached:
  assumes "query_cache w = Some q"
  shows "get_vehicles_query e w = (Inr q, w)"
  using assms by (simp add: get_vehicles_query_def)

lemma get_all_pages_requests:
  assumes "get_vehicles_query e w = (Inr q, w1)"
  shows "(\<exists>new. posts (snd (get_all_pages e w)) = posts w @ new
           \<and> map fst new = map (\<lambda>p. str_replace q ''PAGENUMBER'' (str p)) [1 ..< 1 + length new])
         \<and> query_cache (snd (get_all_pages e w)) = Some q
         \<and> uuid_calls (snd (get_all_pages e w)) = uuid_calls w1"
proof (cases e w rule: get_all_pages_cases)
  case (raised err w')
  with assms have n: "WAFBypass_run e (waf_calls w) = None" by simp
  note gw = get_vehicles_query_world [OF assms]
  from assms n gw
  have "get_all_pages e w
        = (Inl WAFBypassError,
           w1\<lparr>stdout := stdout w1 @ [Bypassing_WAF], waf_calls := Suc (waf_calls w1)\<rparr>)"
    by (simp add: get_all_pages_def Let_def)
  with gw show ?thesis by simp
next
  case (crawl q' w1' h w0)
  with assms have eq: "q' = q" "w1' = w1" by simp_all
  let ?c = "\<lparr>df = [], page_number = 1, headers = h,
            timer_start = timer e (timer_calls w), last_run_counter = 0\<rparr>"
  from crawl_loop_requests [of e q ?c w0] crawl_loop_frame [of e q ?c w0] crawl eq
  show ?thesis by simp
qed

text \<open>
  C9. Once \<open>get_vehicles_query\<close> has returned a query, every later call, whatever the
  globals then are, returns that query again and changes nothing: no new UUID is
  drawn. A call that finds the cache empty draws exactly one UUID and substitutes it
  together with \<open>ZIPCODE\<close>, \<open>MODELCODE\<close> and \<open>DISTANCEMILES\<close>. In a crawl, the query string of
  every request is that one query with only \<open>PAGENUMBER\<close> replaced, for the pages
  1, 2, ... in order; the crawl itself draws at most one UUID and leaves the query in
  the cache.
\<close>

theorem query_is_built_once:
  assumes "get_vehicles_query e w = (Inr q, w1)"
  shows "(query_cache w2 = query_cache w1 \<longrightarrow> get_vehicles_query e' w2 = (Inr q, w2))
         \<and> (query_cache w = None \<longrightarrow>
              uuid_calls w1 = Suc (uuid_calls w)
              \<and> (\<exists>query z m d. vehicles_graphql e = Some query \<and> ZIPCODE e = Some z
                    \<and> MODEL e = Some m \<and> DISTANCE e = Some d
                    \<and> q = str_replace (str_replace (str_replace (str_replace query
                              ''ZIPCODE'' z) ''MODELCODE'' m) ''DISTANCEMILES'' d)
                              ''LEADIDUUID'' (uuid4 e (uuid_calls w))))
         \<and> (\<exists>new. posts (snd (get_all_pages e w)) = posts w @ new
               \<and> map fst new
                   = map (\<lambda>p. str_replace q ''PAGENUMBER'' (str p)) [1 ..< 1 + length new])
         \<and> query_cache (snd (get_all_pages e w)) = Some q
         \<and> uuid_calls (snd (get_all_pages e w)) \<le> Suc (uuid_calls w)"
proof (intro conjI impI)
  from get_vehicles_query_world [OF assms] have c: "query_cache w1 = Some q"
    and u: "uuid_calls w1 \<le> Suc (uuid_calls w)"
    by simp_all
  {
    assume "query_cache w2 = query_cache w1"
    with c show "get_vehicles_query e' w2 = (Inr q, w2)"
      by (simp add: get_vehicles_query_cached)
  }
  note r = get_all_pages_requests [OF assms]
  from r show "\<exists>new. posts (snd (get_all_pages e w)) = posts w @ new
               \<and> map fst new
                   = map (\<lambda>p. str_replace q ''PAGENUMBER'' (str p)) [1 ..< 1 + length new]"
    by blast
  from r show "query_cache (snd (get_all_pages e w)) = Some q" by simp
  from r u show "uuid_calls (snd (get_all_pages e w)) \<le> Suc (uuid_calls w)" by simp
  assume n: "query_cache w = None"
  with assms show "uuid_calls w1 = Suc (uuid_calls w)"
    by (auto simp: get_vehicles_query_def Let_def split: option.splits)
  from n assms show "\<exists>query z m d. vehicles_graphql e = Some query \<and> ZIPCODE e = Some z
                    \<and> MODEL e = Some m \<and> DISTANCE e = Some d
                    \<and> q = str_replace (str_replace (str_replace (str_replace query
                              ''ZIPCODE'' z) ''MODELCODE'' m) ''DISTANCEMILES'' d)
                              ''LEADIDUUID'' (uuid4 e (uuid_calls w))"
    by (auto simp: get_vehicles_query_def Let_def split: option.splits)
qed

theorem query_is_built_once_witness:
  "get_vehicles_query (example_env repeating_pages) fresh_world
     = (Inr ''zip 90210 model sienna miles 100 page PAGENUMBER lead uuid0'',
        fresh_world\<lparr>query_cache :=
            Some ''zip 90210 model sienna miles 100 page PAGENUMBER lead uuid0'',
          uuid_calls := 1\<rparr>)
   \<and> get_vehicles_query ((example_env growing_pages)\<lparr>ZIPCODE := Some ''10001''\<rparr>)
       (fresh_world\<lparr>query_cache :=
            Some ''zip 90210 model sienna miles 100 page PAGENUMBER lead uuid0'',
          uuid_calls := 1\<rparr>)
     = (Inr ''zip 90210 model sienna miles 100 page PAGENUMBER lead uuid0'',
        fresh_world\<lparr>query_cache :=
            Some ''zip 90210 model sienna miles 100 page PAGENUMBER lead uuid0'',
          uuid_calls := 1\<rparr>)
   \<and> map fst (posts (snd (get_all_pages (example_env repeating_pages) fresh_world)))
       = [''zip 90210 model sienna miles 100 page 1 lead uuid0'',
          ''zip 90210 model sienna miles 100 page 2 lead uuid0'']
   \<and> uuid_calls (snd (get_all_pages (example_env repeating_pages) fresh_world)) \<le> 1"
proof -
  have h: "get_vehicles_query (example_env repeating_pages) fresh_world
     = (Inr ''zip 90210 model sienna miles 100 page PAGENUMBER lead uuid0'',
        fresh_world\<lparr>query_cache :=
            Some ''zip 90210 model sienna miles 100 page PAGENUMBER lead uuid0'',
          uuid_calls := 1\<rparr>)"
    by (simp add: run_simps)
  have r: "map fst (posts (snd (get_all_pages (example_env repeating_pages) fresh_world)))
       = [''zip 90210 model sienna miles 100 page 1 lead uuid0'',
          ''zip 90210 model sienna miles 100 page 2 lead uuid0'']"
    "uuid_calls fresh_world = 0"
    by (simp_all add: run_simps repeating_pages_def)
  from query_is_built_once [OF h,
      of "fresh_world\<lparr>query_cache :=
            Some ''zip 90210 model sienna miles 100 page PAGENUMBER lead uuid0'',
          uuid_calls := 1\<rparr>"
         "(example_env growing_pages)\<lparr>ZIPCODE := Some ''10001''\<rparr>"] h r
  show ?thesis by simp
qed

end
